theory Spec2Isabelle
  imports Main
begin

section \<open>The GlazeWM IPC client (src/client.ts)\<close>

text \<open>
  The client is one TypeScript class, \<^verbatim>\<open>GwmClient\<close>. It owns a socket, four arrays of
  callbacks, and it correlates replies with requests through promises. The embedding keeps
  the class as a record that the methods take and return, keeps every closure the class
  creates as a constructor of a datatype (its captured variables are the constructor's
  arguments), and keeps the promise machinery of the language explicit: the promise a call
  creates, the reaction jobs that a settled promise queues, and the suspended \<^verbatim>\<open>await\<close>
  of \<^verbatim>\<open>subscribe\<close>.

  The event loop is single-threaded: a method call and a handler of the socket each run to
  completion, and the queued promise jobs run before the next handler starts. A function
  of the caller is opaque: calling it is recorded in the trace of the client and changes
  nothing else, so a callback does not call back into the client while it runs.
\<close>

subsection \<open>Wire data\<close>

type_synonym IpcMessage = string
type_synonym GwmEvent = string
type_synonym Event = string

text \<open>
  Modelled from the spec: the declarations of \<^verbatim>\<open>./types\<close> and \<^verbatim>\<open>./types/server-message\<close>
  are not among the sources. A command and an event tag are strings (the client builds
  \<^verbatim>\<open>subscribe -e a,b\<close> and passes it on as a command). A server message has a discriminant
  \<^verbatim>\<open>messageType\<close>, the echoed command \<^verbatim>\<open>clientMessage\<close> (present on replies), an optional
  \<^verbatim>\<open>error\<close> text and a \<^verbatim>\<open>data\<close> payload; an event payload carries its event tag in the
  property \<^verbatim>\<open>type\<close> (here \<open>event_type\<close>, absent on other payloads) next to fields the
  client never reads (\<open>detail\<close>).
\<close>

record GwmEventData =
  event_type :: "GwmEvent option"
  detail :: string

record ServerMessage =
  messageType :: string
  clientMessage :: "IpcMessage option"
  error :: "string option"
  data :: GwmEventData

text \<open>
  \<^verbatim>\<open>interface GwmClientOptions { port: number }\<close>. The constructor reads the port through
  \<^verbatim>\<open>this.options?.port ?? this.DEFAULT_PORT\<close>, so a port that is absent at run time is
  covered by the code as well and is the value \<open>None\<close> here. Ports are integers.
\<close>

record GwmClientOptions =
  port :: "int option"

subsection \<open>The transport\<close>

text \<open>
  Modelled from the spec: the adapter \<^verbatim>\<open>./websocket\<close> is not among the sources. It is
  created for one address, \<^verbatim>\<open>send\<close> enqueues a message for delivery and does not fail
  synchronously, \<^verbatim>\<open>close\<close> terminates the channel. The four notification slots are the
  handlers \<open>socket_onmessage\<close>, \<open>socket_onopen\<close>, \<open>socket_onerror\<close> and \<open>socket_onclose\<close>
  below, which the constructor installs.
\<close>

record WebSocket =
  url :: string
  sent :: "IpcMessage list"
  closed :: bool

definition WebSocket_new :: "string \<Rightarrow> WebSocket" where
  "WebSocket_new address = \<lparr>url = address, sent = [], closed = False\<rparr>"

definition WebSocket_send :: "IpcMessage \<Rightarrow> WebSocket \<Rightarrow> WebSocket" where
  "WebSocket_send message w = w\<lparr>sent := sent w @ [message]\<rparr>"

definition WebSocket_close :: "WebSocket \<Rightarrow> WebSocket" where
  "WebSocket_close w = w\<lparr>closed := True\<rparr>"

subsection \<open>Callbacks, handles and promises\<close>

text \<open>
  A message listener is a function object, compared by reference in the unsubscribe
  handle (\<^verbatim>\<open>cb !== callback\<close>). Three kinds of function reach the message registry:
  \<^item> \<open>UserListener f\<close>: a function of the caller, \<open>f\<close> being its reference;
  \<^item> \<open>ReplyListener p message\<close>: the arrow function of lines 46-53, created once by the
    \<open>p\<close>-th call of \<^verbatim>\<open>sendAndWaitReply\<close>; it captures that call's \<^verbatim>\<open>resolve\<close> and
    \<^verbatim>\<open>message\<close>;
  \<^item> \<open>EventListener k eventsArr callback\<close>: the arrow function of lines 94-102, created at
    most once by the \<open>k\<close>-th call of \<^verbatim>\<open>subscribe\<close>; it captures \<^verbatim>\<open>eventsArr\<close> and
    \<^verbatim>\<open>callback\<close>.
  The number of the creating call names the function object, so equality of these values
  is equality of references. Callbacks of the other TypeScript callback types (connect,
  disconnect, error, subscribe) are functions of the caller and are references.
\<close>

datatype MessageCallback =
    UserListener nat
  | ReplyListener nat IpcMessage
  | EventListener nat "GwmEvent list" nat

text \<open>The closure each \<^verbatim>\<open>on...\<close> method returns; it captures \<^verbatim>\<open>callback\<close>.\<close>

datatype UnlistenFn =
    UnlistenMessage MessageCallback
  | UnlistenConnect nat
  | UnlistenDisconnect nat
  | UnlistenError nat

datatype 'a promise = Pending | Fulfilled 'a | Rejected string

text \<open>
  One activation of \<^verbatim>\<open>sendAndWaitReply\<close>: the local variable \<^verbatim>\<open>unlisten\<close> (declared
  without a value), the promise made by \<^verbatim>\<open>new Promise\<close> on line 43, and the promise
  the call returns, which settles after the \<^verbatim>\<open>finally\<close> callback has run.
\<close>

record request =
  unlisten_var :: "UnlistenFn option"
  executor_promise :: "ServerMessage promise"
  returned_promise :: "ServerMessage promise"

text \<open>
  One activation of \<^verbatim>\<open>subscribe\<close> suspended at its \<^verbatim>\<open>await\<close>: the request it waits
  for, its locals, and the number of the promise that \<^verbatim>\<open>subscribe\<close> returned.
\<close>

record continuation =
  awaited :: nat
  eventsArr :: "GwmEvent list"
  callback :: nat
  result :: nat

text \<open>What the client does to the world, in program order.\<close>

datatype effect =
    SocketSend IpcMessage
  | SocketClose
  | Registered UnlistenFn
  | Unregistered UnlistenFn
  | MessageCall nat ServerMessage
  | SubscribeCall nat GwmEventData
  | ConnectCall nat Event
  | DisconnectCall nat Event
  | ErrorCall nat Event

record GwmClient =
  options :: "GwmClientOptions option"
  socket :: WebSocket
  onMessageCallbacks :: "MessageCallback list"
  onConnectCallbacks :: "nat list"
  onDisconnectCallbacks :: "nat list"
  onErrorCallbacks :: "nat list"
  requests :: "request list"
  subscriptions :: "UnlistenFn promise list"
  awaiting :: "continuation list"
  jobs :: "nat list"
  trace :: "effect list"

subsection \<open>Construction\<close>

definition DEFAULT_PORT :: int where
  "DEFAULT_PORT = 6123"

text \<open>The decimal text of a number in a template literal, for integers.\<close>

fun digits :: "nat \<Rightarrow> string" where
  "digits n =
     (if n < 10 then [''0123456789'' ! n]
      else digits (n div 10) @ [''0123456789'' ! (n mod 10)])"

declare digits.simps [simp del]

definition Number_toString :: "int \<Rightarrow> string" where
  "Number_toString n = (if n < 0 then CHR ''-'' # digits (nat (- n)) else digits (nat n))"

text \<open>
  \<^verbatim>\<open>`ws://localhost:${this.options?.port ?? this.DEFAULT_PORT}`\<close>: the default is taken
  when the options or the port are undefined, and only then (\<^verbatim>\<open>??\<close> keeps the port 0).
\<close>

definition socket_address :: "GwmClientOptions option \<Rightarrow> string" where
  "socket_address opts =
     ''ws://localhost:'' @
     Number_toString
       (case opts of
          None \<Rightarrow> DEFAULT_PORT
        | Some os \<Rightarrow> (case port os of None \<Rightarrow> DEFAULT_PORT | Some n \<Rightarrow> n))"

text \<open>
  The parameter property \<^verbatim>\<open>options\<close> is assigned first, then the field initialisers
  run (socket, empty registries), then the constructor body installs the handlers.
\<close>

definition GwmClient_new :: "GwmClientOptions option \<Rightarrow> GwmClient" where
  "GwmClient_new opts =
     \<lparr>options = opts,
      socket = WebSocket_new (socket_address opts),
      onMessageCallbacks = [],
      onConnectCallbacks = [],
      onDisconnectCallbacks = [],
      onErrorCallbacks = [],
      requests = [],
      subscriptions = [],
      awaiting = [],
      jobs = [],
      trace = []\<rparr>"

subsection \<open>Registration and unsubscribe handles\<close>

definition onMessage :: "MessageCallback \<Rightarrow> GwmClient \<Rightarrow> UnlistenFn \<times> GwmClient" where
  "onMessage cb s =
     (UnlistenMessage cb,
      s\<lparr>onMessageCallbacks := onMessageCallbacks s @ [cb],
        trace := trace s @ [Registered (UnlistenMessage cb)]\<rparr>)"

definition onConnect :: "nat \<Rightarrow> GwmClient \<Rightarrow> UnlistenFn \<times> GwmClient" where
  "onConnect cb s =
     (UnlistenConnect cb,
      s\<lparr>onConnectCallbacks := onConnectCallbacks s @ [cb],
        trace := trace s @ [Registered (UnlistenConnect cb)]\<rparr>)"

definition onDisconnect :: "nat \<Rightarrow> GwmClient \<Rightarrow> UnlistenFn \<times> GwmClient" where
  "onDisconnect cb s =
     (UnlistenDisconnect cb,
      s\<lparr>onDisconnectCallbacks := onDisconnectCallbacks s @ [cb],
        trace := trace s @ [Registered (UnlistenDisconnect cb)]\<rparr>)"

definition onError :: "nat \<Rightarrow> GwmClient \<Rightarrow> UnlistenFn \<times> GwmClient" where
  "onError cb s =
     (UnlistenError cb,
      s\<lparr>onErrorCallbacks := onErrorCallbacks s @ [cb],
        trace := trace s @ [Registered (UnlistenError cb)]\<rparr>)"

text \<open>Calling a handle: the registry is replaced by its filtered copy.\<close>

fun call_unlisten :: "UnlistenFn \<Rightarrow> GwmClient \<Rightarrow> GwmClient" where
  "call_unlisten (UnlistenMessage c) s =
     s\<lparr>onMessageCallbacks := filter (\<lambda>cb. cb \<noteq> c) (onMessageCallbacks s),
       trace := trace s @ [Unregistered (UnlistenMessage c)]\<rparr>"
| "call_unlisten (UnlistenConnect c) s =
     s\<lparr>onConnectCallbacks := filter (\<lambda>cb. cb \<noteq> c) (onConnectCallbacks s),
       trace := trace s @ [Unregistered (UnlistenConnect c)]\<rparr>"
| "call_unlisten (UnlistenDisconnect c) s =
     s\<lparr>onDisconnectCallbacks := filter (\<lambda>cb. cb \<noteq> c) (onDisconnectCallbacks s),
       trace := trace s @ [Unregistered (UnlistenDisconnect c)]\<rparr>"
| "call_unlisten (UnlistenError c) s =
     s\<lparr>onErrorCallbacks := filter (\<lambda>cb. cb \<noteq> c) (onErrorCallbacks s),
       trace := trace s @ [Unregistered (UnlistenError c)]\<rparr>"

subsection \<open>Requests\<close>

definition send :: "IpcMessage \<Rightarrow> GwmClient \<Rightarrow> GwmClient" where
  "send message s =
     s\<lparr>socket := WebSocket_send message (socket s),
       trace := trace s @ [SocketSend message]\<rparr>"

text \<open>
  \<^verbatim>\<open>sendAndWaitReply\<close> up to its return: the promise is created, its executor runs at once
  (it sends, then registers the listener and stores the handle in \<^verbatim>\<open>unlisten\<close>), and
  the \<^verbatim>\<open>finally\<close> reaction is attached. The result is the number of the request.
\<close>

definition sendAndWaitReply :: "IpcMessage \<Rightarrow> GwmClient \<Rightarrow> nat \<times> GwmClient" where
  "sendAndWaitReply message s =
     (let p = length (requests s);
          s0 = s\<lparr>requests := requests s @
                 [\<lparr>unlisten_var = None, executor_promise = Pending,
                   returned_promise = Pending\<rparr>]\<rparr>;
          s1 = send message s0;
          (unlisten, s2) = onMessage (ReplyListener p message) s1
      in (p, s2\<lparr>requests :=
                  (requests s2)[p := (requests s2 ! p)\<lparr>unlisten_var := Some unlisten\<rparr>]\<rparr>))"

definition getMonitors :: "GwmClient \<Rightarrow> nat \<times> GwmClient" where
  "getMonitors s = sendAndWaitReply ''monitors'' s"

definition getWorkspaces :: "GwmClient \<Rightarrow> nat \<times> GwmClient" where
  "getWorkspaces s = sendAndWaitReply ''workspaces'' s"

definition getWindows :: "GwmClient \<Rightarrow> nat \<times> GwmClient" where
  "getWindows s = sendAndWaitReply ''windows'' s"

definition close :: "GwmClient \<Rightarrow> GwmClient" where
  "close s = s\<lparr>socket := WebSocket_close (socket s), trace := trace s @ [SocketClose]\<rparr>"

text \<open>
  \<^verbatim>\<open>resolve(msg)\<close> of request \<open>p\<close>: a pending promise is fulfilled and its \<^verbatim>\<open>finally\<close>
  reaction is queued as a job; on a settled promise the call does nothing.
\<close>

definition resolve :: "nat \<Rightarrow> ServerMessage \<Rightarrow> GwmClient \<Rightarrow> GwmClient" where
  "resolve p msg s =
     (if p < length (requests s) \<and> executor_promise (requests s ! p) = Pending
      then s\<lparr>requests := (requests s)[p := (requests s ! p)\<lparr>executor_promise := Fulfilled msg\<rparr>],
             jobs := jobs s @ [p]\<rparr>
      else s)"






text \<open>\<^verbatim>\<open>eventsArr.includes((msg.data as any).type)\<close>; an absent tag is in no list of tags.\<close>

definition Array_includes :: "GwmEvent list \<Rightarrow> GwmEvent option \<Rightarrow> bool" where
  "Array_includes arr t = (case t of None \<Rightarrow> False | Some e \<Rightarrow> e \<in> set arr)"

text \<open>Calling one message listener with an inbound message.\<close>

fun call_listener :: "ServerMessage \<Rightarrow> MessageCallback \<Rightarrow> GwmClient \<Rightarrow> GwmClient" where
  "call_listener msg (UserListener f) s = s\<lparr>trace := trace s @ [MessageCall f msg]\<rparr>"
| "call_listener msg (ReplyListener p message) s =
     (if messageType msg = ''client_response'' \<and> clientMessage msg = Some message
      then resolve p msg s else s)"
| "call_listener msg (EventListener k arr cb) s =
     (if messageType msg = ''subscribed_event'' \<and> Array_includes arr (event_type (data msg))
      then s\<lparr>trace := trace s @ [SubscribeCall cb (data msg)]\<rparr> else s)"

subsection \<open>Socket handlers (\<^verbatim>\<open>_registerSocketLifecycle\<close>)\<close>

definition socket_onmessage :: "ServerMessage \<Rightarrow> GwmClient \<Rightarrow> GwmClient" where
  "socket_onmessage msg s = fold (call_listener msg) (onMessageCallbacks s) s"

definition socket_onopen :: "Event \<Rightarrow> GwmClient \<Rightarrow> GwmClient" where
  "socket_onopen e s =
     fold (\<lambda>cb t. t\<lparr>trace := trace t @ [ConnectCall cb e]\<rparr>) (onConnectCallbacks s) s"

definition socket_onerror :: "Event \<Rightarrow> GwmClient \<Rightarrow> GwmClient" where
  "socket_onerror e s =
     fold (\<lambda>cb t. t\<lparr>trace := trace t @ [ErrorCall cb e]\<rparr>) (onErrorCallbacks s) s"

definition socket_onclose :: "Event \<Rightarrow> GwmClient \<Rightarrow> GwmClient" where
  "socket_onclose e s =
     fold (\<lambda>cb t. t\<lparr>trace := trace t @ [DisconnectCall cb e]\<rparr>) (onDisconnectCallbacks s) s"

subsection \<open>Subscriptions\<close>

text \<open>\<^verbatim>\<open>arr.join(sep)\<close> on an array of strings.\<close>

fun Array_join :: "string \<Rightarrow> string list \<Rightarrow> string" where
  "Array_join sep [] = []"
| "Array_join sep [x] = x"
| "Array_join sep (x # y # ys) = x @ sep @ Array_join sep (y # ys)"

text \<open>The argument of \<^verbatim>\<open>subscribe\<close>: one event tag or an array of them.\<close>

datatype event_arg = One GwmEvent | Many "GwmEvent list"

text \<open>\<^verbatim>\<open>Array.isArray(event) ? event : [event]\<close>.\<close>

definition events_of :: "event_arg \<Rightarrow> GwmEvent list" where
  "events_of event = (case event of Many es \<Rightarrow> es | One e \<Rightarrow> [e])"

text \<open>\<^verbatim>\<open>if (response.error)\<close>: an absent and an empty error text are both falsy.\<close>

definition truthy :: "string option \<Rightarrow> bool" where
  "truthy e = (case e of None \<Rightarrow> False | Some t \<Rightarrow> t \<noteq> [])"

text \<open>
  \<^verbatim>\<open>subscribe\<close> up to its \<^verbatim>\<open>await\<close>: the request is issued and the activation is
  suspended on it. The result is the number of the promise that \<^verbatim>\<open>subscribe\<close> returns.
\<close>

definition subscribe :: "event_arg \<Rightarrow> nat \<Rightarrow> GwmClient \<Rightarrow> nat \<times> GwmClient" where
  "subscribe event cb s =
     (let arr = events_of event;
          (p, s1) = sendAndWaitReply (''subscribe -e '' @ Array_join '','' arr) s;
          k = length (subscriptions s1)
      in (k, s1\<lparr>subscriptions := subscriptions s1 @ [Pending],
                awaiting := awaiting s1 @
                  [\<lparr>awaited = p, eventsArr = arr, callback = cb, result = k\<rparr>]\<rparr>))"

definition subscribe_error :: "GwmEvent list \<Rightarrow> string \<Rightarrow> string" where
  "subscribe_error arr e =
     ''Failed to subscribe to event '' @ [CHR 0x27] @ Array_join '','' arr @ [CHR 0x27] @
     '': '' @ e"

text \<open>
  \<^verbatim>\<open>subscribe\<close> after its \<^verbatim>\<open>await\<close>, with the settled request: it throws on an error
  reply (the returned promise rejects), registers the event listener otherwise and
  returns its handle (the returned promise fulfils). A rejected request is rethrown.
\<close>

definition subscribe_resume :: "continuation \<Rightarrow> GwmClient \<Rightarrow> GwmClient" where
  "subscribe_resume c s =
     (case returned_promise (requests s ! awaited c) of
        Pending \<Rightarrow> s
      | Rejected e \<Rightarrow> s\<lparr>subscriptions := (subscriptions s)[result c := Rejected e]\<rparr>
      | Fulfilled response \<Rightarrow>
          (if truthy (error response)
           then s\<lparr>subscriptions := (subscriptions s)
                    [result c := Rejected (subscribe_error (eventsArr c) (the (error response)))]\<rparr>
           else (let (unlisten, s1) =
                       onMessage (EventListener (result c) (eventsArr c) (callback c)) s
                 in s1\<lparr>subscriptions := (subscriptions s1)[result c := Fulfilled unlisten]\<rparr>)))"

subsection \<open>Promise jobs\<close>

text \<open>
  The \<^verbatim>\<open>finally\<close> reaction of request \<open>p\<close>: \<^verbatim>\<open>() => unlisten()\<close> is called, then the
  returned promise takes the outcome of the executor's promise. Calling an \<^verbatim>\<open>unlisten\<close>
  that was never assigned throws, which rejects the returned promise.
\<close>

definition run_finally :: "nat \<Rightarrow> GwmClient \<Rightarrow> GwmClient" where
  "run_finally p s =
     (case unlisten_var (requests s ! p) of
        None \<Rightarrow>
          s\<lparr>requests := (requests s)
              [p := (requests s ! p)\<lparr>returned_promise :=
                      Rejected ''TypeError: unlisten is not a function''\<rparr>]\<rparr>
      | Some unlisten \<Rightarrow>
          (let s1 = call_unlisten unlisten s
           in s1\<lparr>requests := (requests s1)
                   [p := (requests s1 ! p)\<lparr>returned_promise :=
                           executor_promise (requests s1 ! p)\<rparr>]\<rparr>))"

text \<open>Request \<open>p\<close> has settled: the activations awaiting it resume, in the order of their calls.\<close>

definition run_continuations :: "nat \<Rightarrow> GwmClient \<Rightarrow> GwmClient" where
  "run_continuations p s =
     fold subscribe_resume
       (filter (\<lambda>c. awaited c = p) (awaiting s))
       (s\<lparr>awaiting := filter (\<lambda>c. awaited c \<noteq> p) (awaiting s)\<rparr>)"

text \<open>
  The job queue is emptied after a handler returns. The \<^verbatim>\<open>finally\<close> reactions were
  queued while the handler ran; each of them settles a returned promise, whose awaiting
  activations are queued behind the reactions still waiting, so every \<^verbatim>\<open>finally\<close>
  reaction runs before the first activation resumes.
\<close>

definition checkpoint :: "GwmClient \<Rightarrow> GwmClient" where
  "checkpoint s =
     (let ps = jobs s
      in fold run_continuations ps (fold run_finally ps (s\<lparr>jobs := []\<rparr>)))"

text \<open>
  One inbound message: the transport calls the message handler, which runs to completion,
  then the queued jobs run. \<open>deliver_all\<close> is a sequence of inbound messages.
\<close>

definition deliver :: "ServerMessage \<Rightarrow> GwmClient \<Rightarrow> GwmClient" where
  "deliver msg s = checkpoint (socket_onmessage msg s)"

definition deliver_all :: "ServerMessage list \<Rightarrow> GwmClient \<Rightarrow> GwmClient" where
  "deliver_all msgs s = fold deliver msgs s"

text \<open>\<open>is_reply message msg\<close>: the test of the reply listener, lines 47-50.\<close>

definition is_reply :: "IpcMessage \<Rightarrow> ServerMessage \<Rightarrow> bool" where
  "is_reply message msg \<longleftrightarrow>
     messageType msg = ''client_response'' \<and> clientMessage msg = Some message"

section \<open>Notions for the statements and proofs\<close>

subsection \<open>Observations on the trace\<close>

text \<open>
  \<open>message_calls f t\<close> and \<open>subscribe_calls f t\<close> are the arguments with which the message
  listener \<open>f\<close>, or the subscribe callback \<open>f\<close>, was called in the trace \<open>t\<close>, in order.
  \<open>is_call\<close> singles out the calls of functions of the caller.
\<close>

fun is_call :: "effect \<Rightarrow> bool" where
  "is_call (MessageCall f m) = True"
| "is_call (SubscribeCall f d) = True"
| "is_call (ConnectCall f e) = True"
| "is_call (DisconnectCall f e) = True"
| "is_call (ErrorCall f e) = True"
| "is_call e = False"

fun message_calls :: "nat \<Rightarrow> effect list \<Rightarrow> ServerMessage list" where
  "message_calls f [] = []"
| "message_calls f (MessageCall g m # t) =
     (if g = f then m # message_calls f t else message_calls f t)"
| "message_calls f (e # t) = message_calls f t"

fun subscribe_calls :: "nat \<Rightarrow> effect list \<Rightarrow> GwmEventData list" where
  "subscribe_calls f [] = []"
| "subscribe_calls f (SubscribeCall g d # t) =
     (if g = f then d # subscribe_calls f t else subscribe_calls f t)"
| "subscribe_calls f (e # t) = subscribe_calls f t"

text \<open>\<open>happens_before a b t\<close>: effect \<open>b\<close> occurs in \<open>t\<close>, and \<open>a\<close> occurs before its first occurrence.\<close>

definition happens_before :: "effect \<Rightarrow> effect \<Rightarrow> effect list \<Rightarrow> bool" where
  "happens_before a b t \<longleftrightarrow> b \<in> set t \<and> a \<in> set (takeWhile (\<lambda>e. e \<noteq> b) t)"

text \<open>The calls that one listener makes when it receives \<open>msg\<close>.\<close>

definition listener_calls :: "ServerMessage \<Rightarrow> MessageCallback \<Rightarrow> effect list" where
  "listener_calls msg cb =
     (case cb of
        UserListener f \<Rightarrow> [MessageCall f msg]
      | ReplyListener p m \<Rightarrow> []
      | EventListener k arr f \<Rightarrow>
          (if messageType msg = ''subscribed_event'' \<and> Array_includes arr (event_type (data msg))
           then [SubscribeCall f (data msg)] else []))"

subsection \<open>Requests\<close>

text \<open>
  \<open>in_flight p c s\<close>: request \<open>p\<close> for command \<open>c\<close> has been issued and not answered; both
  promises are pending, the listener is registered and \<^verbatim>\<open>unlisten\<close> holds its handle.
  \<open>answered p c m s\<close>: both promises are fulfilled with \<open>m\<close> and the listener is gone.
\<close>

definition in_flight :: "nat \<Rightarrow> IpcMessage \<Rightarrow> GwmClient \<Rightarrow> bool" where
  "in_flight p c s \<longleftrightarrow>
     p < length (requests s) \<and>
     executor_promise (requests s ! p) = Pending \<and>
     returned_promise (requests s ! p) = Pending \<and>
     unlisten_var (requests s ! p) = Some (UnlistenMessage (ReplyListener p c)) \<and>
     ReplyListener p c \<in> set (onMessageCallbacks s)"

definition answered :: "nat \<Rightarrow> IpcMessage \<Rightarrow> ServerMessage \<Rightarrow> GwmClient \<Rightarrow> bool" where
  "answered p c m s \<longleftrightarrow>
     p < length (requests s) \<and>
     executor_promise (requests s ! p) = Fulfilled m \<and>
     returned_promise (requests s ! p) = Fulfilled m \<and>
     ReplyListener p c \<notin> set (onMessageCallbacks s)"

text \<open>
  \<open>accepts cb msg\<close>: \<open>cb\<close> is the listener of a request and its test accepts \<open>msg\<close>.
  \<open>unanswered msgs reg\<close>: none of the messages \<open>msgs\<close> answers a request whose listener is
  in \<open>reg\<close>.
\<close>

definition accepts :: "MessageCallback \<Rightarrow> ServerMessage \<Rightarrow> bool" where
  "accepts cb msg \<longleftrightarrow> (case cb of ReplyListener q c \<Rightarrow> is_reply c msg | _ \<Rightarrow> False)"

definition unanswered :: "ServerMessage list \<Rightarrow> MessageCallback list \<Rightarrow> bool" where
  "unanswered msgs reg \<longleftrightarrow> (\<forall>cb \<in> set reg. \<forall>msg \<in> set msgs. \<not> accepts cb msg)"

text \<open>
  \<open>alone p c reg msgs s\<close>: the registry is \<open>reg\<close> followed by the listener of request \<open>p\<close>,
  the messages \<open>msgs\<close> answer no request of \<open>reg\<close>, and no activation of \<^verbatim>\<open>subscribe\<close>
  waits for \<open>p\<close>.
\<close>

definition alone ::
    "nat \<Rightarrow> IpcMessage \<Rightarrow> MessageCallback list \<Rightarrow> ServerMessage list \<Rightarrow> GwmClient \<Rightarrow> bool" where
  "alone p c reg msgs s \<longleftrightarrow>
     onMessageCallbacks s = reg @ [ReplyListener p c] \<and>
     unanswered msgs reg \<and>
     ReplyListener p c \<notin> set reg \<and>
     (\<forall>k \<in> set (awaiting s). awaited k \<noteq> p)"

text \<open>
  \<open>fires msg q cbs\<close>: among \<open>cbs\<close> there is a listener of request \<open>q\<close> whose test accepts
  \<open>msg\<close>. \<open>fired msg s\<close>: the requests that the delivery of \<open>msg\<close> in \<open>s\<close> resolves.
\<close>

definition fires :: "ServerMessage \<Rightarrow> nat \<Rightarrow> MessageCallback list \<Rightarrow> bool" where
  "fires msg q cbs \<longleftrightarrow> (\<exists>m. ReplyListener q m \<in> set cbs \<and> is_reply m msg)"

definition fired :: "ServerMessage \<Rightarrow> GwmClient \<Rightarrow> nat set" where
  "fired msg s =
     {q. fires msg q (onMessageCallbacks s) \<and> q < length (requests s) \<and>
         executor_promise (requests s ! q) = Pending}"

text \<open>What the \<^verbatim>\<open>finally\<close> reaction of a request makes of the returned promise.\<close>

definition finally_outcome :: "request \<Rightarrow> ServerMessage promise" where
  "finally_outcome r =
     (case unlisten_var r of
        None \<Rightarrow> Rejected ''TypeError: unlisten is not a function''
      | Some h \<Rightarrow> executor_promise r)"

subsection \<open>Subscriptions\<close>

text \<open>The command that \<^verbatim>\<open>subscribe(event, ...)\<close> sends.\<close>

definition subscribe_command :: "event_arg \<Rightarrow> IpcMessage" where
  "subscribe_command event = ''subscribe -e '' @ Array_join '','' (events_of event)"

text \<open>The activation that \<open>subscribe event f\<close> suspends in state \<open>s\<close>.\<close>

definition suspended :: "event_arg \<Rightarrow> nat \<Rightarrow> GwmClient \<Rightarrow> continuation" where
  "suspended event f s =
     \<lparr>awaited = length (requests s), eventsArr = events_of event, callback = f,
      result = length (subscriptions s)\<rparr>"


text \<open>
  What a resumed activation does, read off \<open>subscribe_resume\<close>: the listener it appends to
  the registry (none on an error reply), the update of the promises of \<^verbatim>\<open>subscribe\<close>, and
  the value its own promise takes.
\<close>

definition new_listener :: "request list \<Rightarrow> continuation \<Rightarrow> MessageCallback list" where
  "new_listener rs c =
     (case returned_promise (rs ! awaited c) of
        Fulfilled r \<Rightarrow>
          (if truthy (error r) then []
           else [EventListener (result c) (eventsArr c) (callback c)])
      | _ \<Rightarrow> [])"

definition settle :: "request list \<Rightarrow> continuation \<Rightarrow> UnlistenFn promise list \<Rightarrow> UnlistenFn promise list" where
  "settle rs c subs =
     (case returned_promise (rs ! awaited c) of
        Pending \<Rightarrow> subs
      | Rejected e \<Rightarrow> subs[result c := Rejected e]
      | Fulfilled r \<Rightarrow>
          subs[result c :=
            (if truthy (error r)
             then Rejected (subscribe_error (eventsArr c) (the (error r)))
             else Fulfilled (UnlistenMessage (EventListener (result c) (eventsArr c) (callback c))))])"

definition subscribe_outcome :: "request list \<Rightarrow> continuation \<Rightarrow> UnlistenFn promise \<Rightarrow> UnlistenFn promise" where
  "subscribe_outcome rs c old =
     (case returned_promise (rs ! awaited c) of
        Pending \<Rightarrow> old
      | Rejected e \<Rightarrow> Rejected e
      | Fulfilled r \<Rightarrow>
          (if truthy (error r)
           then Rejected (subscribe_error (eventsArr c) (the (error r)))
           else Fulfilled (UnlistenMessage (EventListener (result c) (eventsArr c) (callback c)))))"

text \<open>
  The activations that resume when the requests \<open>ps\<close> settle in this order, in the order
  in which they resume; \<open>cs\<close> are the suspended activations.
\<close>

fun resumed :: "nat list \<Rightarrow> continuation list \<Rightarrow> continuation list" where
  "resumed [] cs = []"
| "resumed (q # ps) cs =
     filter (\<lambda>c. awaited c = q) cs @ resumed ps (filter (\<lambda>c. awaited c \<noteq> q) cs)"

text \<open>
  \<open>uses f cb\<close>: \<open>cb\<close> is an event listener that calls the subscribe callback \<open>f\<close>.
  \<open>made_by k cb\<close>: \<open>cb\<close> is the event listener created by the \<open>k\<close>-th call of
  \<^verbatim>\<open>subscribe\<close>.
\<close>

definition is_event_listener :: "MessageCallback \<Rightarrow> bool" where
  "is_event_listener cb \<longleftrightarrow> (case cb of EventListener k arr f \<Rightarrow> True | _ \<Rightarrow> False)"

definition uses :: "nat \<Rightarrow> MessageCallback \<Rightarrow> bool" where
  "uses f cb \<longleftrightarrow> (case cb of EventListener k arr g \<Rightarrow> g = f | _ \<Rightarrow> False)"

definition made_by :: "nat \<Rightarrow> MessageCallback \<Rightarrow> bool" where
  "made_by k cb \<longleftrightarrow> (case cb of EventListener j arr g \<Rightarrow> j = k | _ \<Rightarrow> False)"

text \<open>No registered listener and no suspended activation refers to the subscribe callback \<open>f\<close>.\<close>

definition unused :: "nat \<Rightarrow> GwmClient \<Rightarrow> bool" where
  "unused f s \<longleftrightarrow>
     (\<forall>c \<in> set (awaiting s). callback c \<noteq> f) \<and>
     (\<forall>cb \<in> set (onMessageCallbacks s). \<not> uses f cb)"

text \<open>
  \<open>waiting c0 s\<close>: the activation \<open>c0\<close> is suspended, it is the only one that will settle its
  promise, and the listener it may create does not exist yet.
  \<open>sole_waiter c0 s\<close>: \<open>c0\<close> is suspended and nothing else refers to its callback.
\<close>

definition waiting :: "continuation \<Rightarrow> GwmClient \<Rightarrow> bool" where
  "waiting c0 s \<longleftrightarrow>
     filter (\<lambda>c. result c = result c0) (awaiting s) = [c0] \<and>
     filter (made_by (result c0)) (onMessageCallbacks s) = [] \<and>
     result c0 < length (subscriptions s)"

definition sole_waiter :: "continuation \<Rightarrow> GwmClient \<Rightarrow> bool" where
  "sole_waiter c0 s \<longleftrightarrow>
     filter (\<lambda>c. callback c = callback c0) (awaiting s) = [c0] \<and>
     filter (uses (callback c0)) (onMessageCallbacks s) = []"

subsection \<open>Consistent states\<close>

text \<open>
  The states the client can be in between two turns of the event loop: the job queue is
  empty; the variable \<^verbatim>\<open>unlisten\<close> of every request holds the handle of that request's
  own listener; a registered reply listener belongs to a request that exists and is the one
  its \<^verbatim>\<open>unlisten\<close> names; a registered event listener and a suspended activation
  belong to calls that have been made. A new client is consistent and every operation
  keeps a consistent client consistent (lemmas \<open>consistent_new\<close> to \<open>consistent_handlers\<close>).
\<close>

definition own_handle :: "nat \<Rightarrow> request \<Rightarrow> bool" where
  "own_handle q r \<longleftrightarrow>
     (case unlisten_var r of
        Some (UnlistenMessage (ReplyListener p m)) \<Rightarrow> p = q
      | _ \<Rightarrow> False)"

definition known_request :: "request list \<Rightarrow> nat \<Rightarrow> MessageCallback \<Rightarrow> bool" where
  "known_request rs n cb \<longleftrightarrow>
     (case cb of
        UserListener f \<Rightarrow> True
      | ReplyListener p m \<Rightarrow> p < length rs \<and> unlisten_var (rs ! p) = Some (UnlistenMessage cb)
      | EventListener k arr f \<Rightarrow> k < n)"

definition consistent :: "GwmClient \<Rightarrow> bool" where
  "consistent s \<longleftrightarrow>
     jobs s = [] \<and>
     (\<forall>q < length (requests s). own_handle q (requests s ! q)) \<and>
     (\<forall>cb \<in> set (onMessageCallbacks s).
        known_request (requests s) (length (subscriptions s)) cb) \<and>
     (\<forall>c \<in> set (awaiting s).
        awaited c < length (requests s) \<and> result c < length (subscriptions s))"

subsection \<open>Example messages\<close>

text \<open>A reply to a command, with or without an error, and an event notification.\<close>

definition client_response :: "IpcMessage \<Rightarrow> string option \<Rightarrow> ServerMessage" where
  "client_response c e =
     \<lparr>messageType = ''client_response'', clientMessage = Some c, error = e,
      data = \<lparr>event_type = None, detail = []\<rparr>\<rparr>"

definition subscribed_event :: "GwmEvent \<Rightarrow> string \<Rightarrow> ServerMessage" where
  "subscribed_event t d =
     \<lparr>messageType = ''subscribed_event'', clientMessage = None, error = None,
      data = \<lparr>event_type = Some t, detail = d\<rparr>\<rparr>"


section \<open>Lemmas\<close>

subsection \<open>The message handler\<close>

lemma resolve_frame [simp]:
  "onMessageCallbacks (resolve p msg s) = onMessageCallbacks s"
  "awaiting (resolve p msg s) = awaiting s"
  "subscriptions (resolve p msg s) = subscriptions s"
  "trace (resolve p msg s) = trace s"
  "socket (resolve p msg s) = socket s"
  "length (requests (resolve p msg s)) = length (requests s)"
  "unlisten_var (requests (resolve p msg s) ! q) = unlisten_var (requests s ! q)"
  "returned_promise (requests (resolve p msg s) ! q) = returned_promise (requests s ! q)"
  by (simp_all add: resolve_def nth_list_update)

lemma call_listener_frame [simp]:
  "onMessageCallbacks (call_listener msg cb s) = onMessageCallbacks s"
  "awaiting (call_listener msg cb s) = awaiting s"
  "subscriptions (call_listener msg cb s) = subscriptions s"
  "socket (call_listener msg cb s) = socket s"
  "length (requests (call_listener msg cb s)) = length (requests s)"
  "unlisten_var (requests (call_listener msg cb s) ! q) = unlisten_var (requests s ! q)"
  "returned_promise (requests (call_listener msg cb s) ! q) = returned_promise (requests s ! q)"
  by (cases cb; simp)+

lemma fanout_frame [simp]:
  "onMessageCallbacks (fold (call_listener msg) cbs s) = onMessageCallbacks s"
  "awaiting (fold (call_listener msg) cbs s) = awaiting s"
  "subscriptions (fold (call_listener msg) cbs s) = subscriptions s"
  "socket (fold (call_listener msg) cbs s) = socket s"
  "length (requests (fold (call_listener msg) cbs s)) = length (requests s)"
  "unlisten_var (requests (fold (call_listener msg) cbs s) ! q) = unlisten_var (requests s ! q)"
  "returned_promise (requests (fold (call_listener msg) cbs s) ! q) = returned_promise (requests s ! q)"
  by (induction cbs arbitrary: s; simp)+

lemma fires_Nil [simp]: "\<not> fires msg q []"
  by (simp add: fires_def)

lemma fires_Cons:
  "fires msg q (cb # cbs) \<longleftrightarrow> fires msg q [cb] \<or> fires msg q cbs"
  by (auto simp: fires_def)

lemma resolve_executor:
  "executor_promise (requests (resolve p msg s) ! q) =
     (if q = p \<and> p < length (requests s) \<and> executor_promise (requests s ! p) = Pending
      then Fulfilled msg else executor_promise (requests s ! q))"
  by (simp add: resolve_def nth_list_update)

lemma resolve_jobs:
  "jobs (resolve p msg s) =
     (if p < length (requests s) \<and> executor_promise (requests s ! p) = Pending
      then jobs s @ [p] else jobs s)"
  by (simp add: resolve_def)

lemma call_listener_executor:
  "executor_promise (requests (call_listener msg cb s) ! q) =
     (if fires msg q [cb] \<and> q < length (requests s) \<and> executor_promise (requests s ! q) = Pending
      then Fulfilled msg else executor_promise (requests s ! q))"
  by (cases cb) (auto simp: resolve_executor fires_def is_reply_def)

lemma fanout_executor:
  "executor_promise (requests (fold (call_listener msg) cbs s) ! q) =
     (if fires msg q cbs \<and> q < length (requests s) \<and> executor_promise (requests s ! q) = Pending
      then Fulfilled msg else executor_promise (requests s ! q))"
proof (induction cbs arbitrary: s)
  case Nil
  show ?case by simp
next
  case (Cons cb cbs)
  show ?case
    using fires_Cons [of msg q cb cbs] by (simp add: Cons.IH call_listener_executor)
qed

lemma call_listener_jobs:
  "set (jobs (call_listener msg cb s)) =
     set (jobs s) \<union> {q. fires msg q [cb] \<and> q < length (requests s) \<and> executor_promise (requests s ! q) = Pending}"
  by (cases cb) (auto simp: resolve_jobs fires_def is_reply_def)

lemma fanout_jobs:
  "set (jobs (fold (call_listener msg) cbs s)) =
     set (jobs s) \<union> {q. fires msg q cbs \<and> q < length (requests s) \<and> executor_promise (requests s ! q) = Pending}"
proof (induction cbs arbitrary: s)
  case Nil
  show ?case by simp
next
  case (Cons cb cbs)
  show ?case
    using fires_Cons [of msg _ cb cbs]
    by (auto simp: Cons.IH call_listener_jobs call_listener_executor split: if_splits)
qed

subsection \<open>The finally reactions\<close>

lemma nth_list_update_total:
  "(xs[p := v]) ! q = (if q = p \<and> p < length xs then v else xs ! q)"
  by (cases "p < length xs") (auto simp: nth_list_update list_update_beyond)

lemma call_unlisten_frame [simp]:
  "requests (call_unlisten h s) = requests s"
  "awaiting (call_unlisten h s) = awaiting s"
  "subscriptions (call_unlisten h s) = subscriptions s"
  "jobs (call_unlisten h s) = jobs s"
  "socket (call_unlisten h s) = socket s"
  by (cases h; simp)+

lemma call_unlisten_registry:
  "onMessageCallbacks (call_unlisten h s) =
     filter (\<lambda>cb. h \<noteq> UnlistenMessage cb) (onMessageCallbacks s)"
  by (cases h) (auto intro: filter_cong)

lemma run_finally_frame [simp]:
  "awaiting (run_finally p s) = awaiting s"
  "subscriptions (run_finally p s) = subscriptions s"
  "jobs (run_finally p s) = jobs s"
  "socket (run_finally p s) = socket s"
  "length (requests (run_finally p s)) = length (requests s)"
  "unlisten_var (requests (run_finally p s) ! q) = unlisten_var (requests s ! q)"
  "executor_promise (requests (run_finally p s) ! q) = executor_promise (requests s ! q)"
  by (simp_all add: run_finally_def Let_def nth_list_update_total split: option.splits)

lemma run_finally_registry:
  "onMessageCallbacks (run_finally p s) =
     filter (\<lambda>cb. unlisten_var (requests s ! p) \<noteq> Some (UnlistenMessage cb))
       (onMessageCallbacks s)"
  by (simp add: run_finally_def Let_def call_unlisten_registry split: option.splits)

lemma run_finally_returned:
  "returned_promise (requests (run_finally p s) ! q) =
     (if q = p \<and> p < length (requests s) then finally_outcome (requests s ! p)
      else returned_promise (requests s ! q))"
  by (auto simp: run_finally_def Let_def nth_list_update_total finally_outcome_def split: option.splits)

lemma finally_all_frame [simp]:
  "awaiting (fold run_finally ps s) = awaiting s"
  "subscriptions (fold run_finally ps s) = subscriptions s"
  "jobs (fold run_finally ps s) = jobs s"
  "socket (fold run_finally ps s) = socket s"
  "length (requests (fold run_finally ps s)) = length (requests s)"
  "unlisten_var (requests (fold run_finally ps s) ! q) = unlisten_var (requests s ! q)"
  "executor_promise (requests (fold run_finally ps s) ! q) = executor_promise (requests s ! q)"
  by (induction ps arbitrary: s; simp)+

lemma finally_outcome_cong:
  "unlisten_var r = unlisten_var r' \<Longrightarrow> executor_promise r = executor_promise r' \<Longrightarrow>
   finally_outcome r = finally_outcome r'"
  by (simp add: finally_outcome_def split: option.splits)

lemma finally_all_registry:
  "onMessageCallbacks (fold run_finally ps s) =
     filter (\<lambda>cb. \<forall>q\<in>set ps. unlisten_var (requests s ! q) \<noteq> Some (UnlistenMessage cb))
       (onMessageCallbacks s)"
proof (induction ps arbitrary: s)
  case Nil
  show ?case by simp
next
  case (Cons p ps)
  show ?case
    by (simp add: Cons.IH run_finally_registry)
qed

lemma finally_all_returned:
  "returned_promise (requests (fold run_finally ps s) ! q) =
     (if q \<in> set ps \<and> q < length (requests s) then finally_outcome (requests s ! q)
      else returned_promise (requests s ! q))"
proof (induction ps arbitrary: s)
  case Nil
  show ?case by simp
next
  case (Cons p ps)
  have "\<And>r. finally_outcome (requests (run_finally p s) ! r) = finally_outcome (requests s ! r)"
    by (rule finally_outcome_cong) simp_all
  then show ?case
    by (auto simp: Cons.IH run_finally_returned)
qed

subsection \<open>Resumed activations\<close>

lemma subscribe_resume_frame [simp]:
  "requests (subscribe_resume c s) = requests s"
  "jobs (subscribe_resume c s) = jobs s"
  "awaiting (subscribe_resume c s) = awaiting s"
  "socket (subscribe_resume c s) = socket s"
  by (simp_all add: subscribe_resume_def onMessage_def split: promise.splits)

lemma subscribe_resume_registry:
  "onMessageCallbacks (subscribe_resume c s) = onMessageCallbacks s @ new_listener (requests s) c"
  by (simp add: subscribe_resume_def onMessage_def new_listener_def split: promise.splits)

lemma subscribe_resume_subscriptions:
  "subscriptions (subscribe_resume c s) = settle (requests s) c (subscriptions s)"
  by (simp add: subscribe_resume_def onMessage_def settle_def split: promise.splits)

lemma subscribe_resume_awaiting_update:
  "subscribe_resume c (s\<lparr>awaiting := a\<rparr>) = (subscribe_resume c s)\<lparr>awaiting := a\<rparr>"
  by (simp add: subscribe_resume_def onMessage_def split: promise.splits)

lemma resume_all_frame [simp]:
  "requests (fold subscribe_resume cs s) = requests s"
  "jobs (fold subscribe_resume cs s) = jobs s"
  "awaiting (fold subscribe_resume cs s) = awaiting s"
  "socket (fold subscribe_resume cs s) = socket s"
  by (induction cs arbitrary: s; simp)+

lemma resume_all_registry:
  "onMessageCallbacks (fold subscribe_resume cs s) =
     onMessageCallbacks s @ concat (map (new_listener (requests s)) cs)"
  by (induction cs arbitrary: s) (simp_all add: subscribe_resume_registry)

lemma resume_all_subscriptions:
  "subscriptions (fold subscribe_resume cs s) = fold (settle (requests s)) cs (subscriptions s)"
  by (induction cs arbitrary: s) (simp_all add: subscribe_resume_subscriptions)

lemma resume_all_awaiting_update:
  "fold subscribe_resume cs (s\<lparr>awaiting := a\<rparr>) = (fold subscribe_resume cs s)\<lparr>awaiting := a\<rparr>"
  by (induction cs arbitrary: s) (simp_all add: subscribe_resume_awaiting_update)

lemma run_continuations_eq:
  "run_continuations q s =
     (fold subscribe_resume (filter (\<lambda>c. awaited c = q) (awaiting s)) s)
       \<lparr>awaiting := filter (\<lambda>c. awaited c \<noteq> q) (awaiting s)\<rparr>"
  by (simp add: run_continuations_def resume_all_awaiting_update)

lemma continuations_all:
  "fold run_continuations ps s =
     (fold subscribe_resume (resumed ps (awaiting s)) s)
       \<lparr>awaiting := filter (\<lambda>c. awaited c \<notin> set ps) (awaiting s)\<rparr>"
proof (induction ps arbitrary: s)
  case Nil
  show ?case by simp
next
  case (Cons q ps)
  let ?s' = "run_continuations q s"
  have "fold run_continuations (q # ps) s = fold run_continuations ps ?s'"
    by simp
  also have "\<dots> = (fold subscribe_resume (resumed ps (awaiting ?s')) ?s')
       \<lparr>awaiting := filter (\<lambda>c. awaited c \<notin> set ps) (awaiting ?s')\<rparr>"
    by (rule Cons.IH)
  also have "\<dots> = (fold subscribe_resume (resumed (q # ps) (awaiting s)) s)
       \<lparr>awaiting := filter (\<lambda>c. awaited c \<notin> set (q # ps)) (awaiting s)\<rparr>"
    by (simp add: run_continuations_eq resume_all_awaiting_update conj_commute)
  finally show ?case .
qed

lemma checkpoint_eq:
  "checkpoint s =
     (fold subscribe_resume (resumed (jobs s) (awaiting s)) (fold run_finally (jobs s) (s\<lparr>jobs := []\<rparr>)))
       \<lparr>awaiting := filter (\<lambda>c. awaited c \<notin> set (jobs s)) (awaiting s)\<rparr>"
  by (simp add: checkpoint_def Let_def continuations_all)

subsection \<open>One delivery\<close>

lemma socket_onmessage_jobs:
  "jobs s = [] \<Longrightarrow> set (jobs (socket_onmessage msg s)) = fired msg s"
  by (simp add: socket_onmessage_def fanout_jobs fired_def)

lemma deliver_length [simp]:
  "length (requests (deliver msg s)) = length (requests s)"
  by (simp add: deliver_def checkpoint_eq socket_onmessage_def)

lemma deliver_unlisten_var [simp]:
  "unlisten_var (requests (deliver msg s) ! q) = unlisten_var (requests s ! q)"
  by (simp add: deliver_def checkpoint_eq socket_onmessage_def)

lemma deliver_jobs [simp]: "jobs (deliver msg s) = []"
  by (simp add: deliver_def checkpoint_eq)

lemma deliver_executor:
  "executor_promise (requests (deliver msg s) ! q) =
     (if q \<in> fired msg s then Fulfilled msg else executor_promise (requests s ! q))"
  by (simp add: deliver_def checkpoint_eq socket_onmessage_def fanout_executor fired_def)

lemma deliver_returned:
  assumes "jobs s = []"
  shows "returned_promise (requests (deliver msg s) ! q) =
     (if q \<in> fired msg s
      then (case unlisten_var (requests s ! q) of
              None \<Rightarrow> Rejected ''TypeError: unlisten is not a function''
            | Some h \<Rightarrow> Fulfilled msg)
      else returned_promise (requests s ! q))"
proof -
  let ?s1 = "socket_onmessage msg s"
  have "returned_promise (requests (deliver msg s) ! q) =
      (if q \<in> fired msg s \<and> q < length (requests s) then finally_outcome (requests ?s1 ! q)
       else returned_promise (requests ?s1 ! q))"
    using socket_onmessage_jobs [OF assms, of msg]
    by (simp add: deliver_def checkpoint_eq finally_all_returned) (auto simp: socket_onmessage_def)
  moreover have "q \<in> fired msg s \<Longrightarrow> q < length (requests s)"
    by (simp add: fired_def)
  moreover have "q \<in> fired msg s \<Longrightarrow> executor_promise (requests ?s1 ! q) = Fulfilled msg"
    by (simp add: socket_onmessage_def fanout_executor fired_def)
  moreover have "unlisten_var (requests ?s1 ! q) = unlisten_var (requests s ! q)"
    "returned_promise (requests ?s1 ! q) = returned_promise (requests s ! q)"
    by (simp_all add: socket_onmessage_def)
  ultimately show ?thesis
    by (auto simp: finally_outcome_def split: option.splits)
qed

lemma deliver_awaiting:
  "jobs s = [] \<Longrightarrow>
   awaiting (deliver msg s) = filter (\<lambda>c. awaited c \<notin> fired msg s) (awaiting s)"
  using socket_onmessage_jobs [of s msg]
  by (simp add: deliver_def checkpoint_eq) (simp add: socket_onmessage_def)

lemma new_listener_is_event:
  "cb \<in> set (new_listener rs c) \<Longrightarrow> is_event_listener cb"
  by (auto simp: new_listener_def is_event_listener_def split: promise.splits if_splits)

lemma deliver_registry:
  assumes "jobs s = []"
  shows "\<exists>new. onMessageCallbacks (deliver msg s) =
     filter (\<lambda>cb. \<forall>q\<in>fired msg s. unlisten_var (requests s ! q) \<noteq> Some (UnlistenMessage cb))
       (onMessageCallbacks s) @ new
     \<and> (\<forall>cb\<in>set new. is_event_listener cb)
     \<and> (fired msg s = {} \<longrightarrow> new = [])"
proof -
  let ?s1 = "socket_onmessage msg s"
  let ?s2 = "fold run_finally (jobs ?s1) (?s1\<lparr>jobs := []\<rparr>)"
  let ?new = "concat (map (new_listener (requests ?s2)) (resumed (jobs ?s1) (awaiting ?s1)))"
  have "onMessageCallbacks (deliver msg s) =
     filter (\<lambda>cb. \<forall>q\<in>fired msg s. unlisten_var (requests s ! q) \<noteq> Some (UnlistenMessage cb))
       (onMessageCallbacks s) @ ?new"
    using socket_onmessage_jobs [OF assms, of msg]
    by (simp add: deliver_def checkpoint_eq resume_all_registry finally_all_registry)
       (simp add: socket_onmessage_def)
  moreover have "\<forall>cb\<in>set ?new. is_event_listener cb"
    by (auto dest: new_listener_is_event)
  moreover have "fired msg s = {} \<longrightarrow> ?new = []"
    using socket_onmessage_jobs [OF assms, of msg] by auto
  ultimately show ?thesis by blast
qed

subsection \<open>Calls recorded in the trace\<close>

lemma message_calls_append [simp]:
  "message_calls f (t @ u) = message_calls f t @ message_calls f u"
  by (induction f t rule: message_calls.induct) simp_all

lemma subscribe_calls_append [simp]:
  "subscribe_calls f (t @ u) = subscribe_calls f t @ subscribe_calls f u"
  by (induction f t rule: subscribe_calls.induct) simp_all

lemma message_calls_filter [simp]:
  "message_calls f (filter is_call t) = message_calls f t"
  by (induction f t rule: message_calls.induct) simp_all

lemma subscribe_calls_filter [simp]:
  "subscribe_calls f (filter is_call t) = subscribe_calls f t"
  by (induction f t rule: subscribe_calls.induct) simp_all

lemma listener_calls_are_calls [simp]:
  "filter is_call (listener_calls msg cb) = listener_calls msg cb"
  by (cases cb) (simp_all add: listener_calls_def)

lemma call_listener_trace:
  "trace (call_listener msg cb s) = trace s @ listener_calls msg cb"
  by (cases cb) (simp_all add: listener_calls_def)

lemma fanout_trace:
  "trace (fold (call_listener msg) cbs s) = trace s @ concat (map (listener_calls msg) cbs)"
  by (induction cbs arbitrary: s) (simp_all add: call_listener_trace)

lemma call_unlisten_calls [simp]:
  "filter is_call (trace (call_unlisten h s)) = filter is_call (trace s)"
  by (cases h) simp_all

lemma run_finally_calls [simp]:
  "filter is_call (trace (run_finally p s)) = filter is_call (trace s)"
  by (simp add: run_finally_def Let_def split: option.splits)

lemma finally_all_calls [simp]:
  "filter is_call (trace (fold run_finally ps s)) = filter is_call (trace s)"
  by (induction ps arbitrary: s) simp_all

lemma subscribe_resume_calls [simp]:
  "filter is_call (trace (subscribe_resume c s)) = filter is_call (trace s)"
  by (simp add: subscribe_resume_def onMessage_def split: promise.splits)

lemma resume_all_calls [simp]:
  "filter is_call (trace (fold subscribe_resume cs s)) = filter is_call (trace s)"
  by (induction cs arbitrary: s) simp_all

lemma filter_calls_concat [simp]:
  "filter is_call (concat (map (listener_calls msg) cbs)) = concat (map (listener_calls msg) cbs)"
  by (induction cbs) simp_all

lemma deliver_calls:
  "filter is_call (trace (deliver msg s)) =
     filter is_call (trace s) @ concat (map (listener_calls msg) (onMessageCallbacks s))"
  by (simp add: deliver_def checkpoint_eq) (simp add: socket_onmessage_def fanout_trace)

lemma message_calls_listeners:
  "message_calls f (concat (map (listener_calls msg) cbs)) =
     map (\<lambda>cb. msg) (filter (\<lambda>cb. cb = UserListener f) cbs)"
proof (induction cbs)
  case Nil
  show ?case by simp
next
  case (Cons cb cbs)
  then show ?case
    by (cases cb) (auto simp: listener_calls_def)
qed

lemma deliver_message_calls:
  "message_calls f (trace (deliver msg s)) =
     message_calls f (trace s) @
     map (\<lambda>cb. msg) (filter (\<lambda>cb. cb = UserListener f) (onMessageCallbacks s))"
proof -
  have "message_calls f (trace (deliver msg s)) =
      message_calls f (filter is_call (trace (deliver msg s)))"
    by simp
  also have "\<dots> = message_calls f (trace s) @
      message_calls f (concat (map (listener_calls msg) (onMessageCallbacks s)))"
    by (simp only: deliver_calls message_calls_append message_calls_filter)
  finally show ?thesis
    by (simp add: message_calls_listeners)
qed

lemma onclose_frame [simp]:
  "requests (socket_onclose e s) = requests s"
  "onMessageCallbacks (socket_onclose e s) = onMessageCallbacks s"
proof -
  have "\<And>cbs. requests (fold (\<lambda>cb t. t\<lparr>trace := trace t @ [DisconnectCall cb e]\<rparr>) cbs s) = requests s"
    subgoal for cbs by (induction cbs arbitrary: s) simp_all
    done
  then show "requests (socket_onclose e s) = requests s"
    by (simp add: socket_onclose_def)
  have "\<And>cbs. onMessageCallbacks (fold (\<lambda>cb t. t\<lparr>trace := trace t @ [DisconnectCall cb e]\<rparr>) cbs s)
      = onMessageCallbacks s"
    subgoal for cbs by (induction cbs arbitrary: s) simp_all
    done
  then show "onMessageCallbacks (socket_onclose e s) = onMessageCallbacks s"
    by (simp add: socket_onclose_def)
qed

lemma set_resumed:
  "set (resumed ps cs) = {c \<in> set cs. awaited c \<in> set ps}"
  by (induction ps arbitrary: cs) auto

lemma filter_resumed:
  "filter Q (resumed ps cs) = resumed ps (filter Q cs)"
proof (induction ps arbitrary: cs)
  case Nil
  show ?case by simp
next
  case (Cons q ps)
  show ?case
    by (simp add: Cons.IH conj_commute)
qed

lemma resumed_Nil [simp]: "resumed ps [] = []"
  by (induction ps) simp_all

lemma resumed_single:
  "resumed ps [c] = (if awaited c \<in> set ps then [c] else [])"
  by (induction ps) auto

lemma deliver_requests_finally:
  "requests (deliver msg s) =
     requests (fold run_finally (jobs (socket_onmessage msg s)) ((socket_onmessage msg s)\<lparr>jobs := []\<rparr>))"
  by (simp add: deliver_def checkpoint_eq)

lemma deliver_registry_exact:
  assumes "jobs s = []"
  shows "onMessageCallbacks (deliver msg s) =
     filter (\<lambda>cb. \<forall>q\<in>fired msg s. unlisten_var (requests s ! q) \<noteq> Some (UnlistenMessage cb))
       (onMessageCallbacks s) @
     concat (map (new_listener (requests (deliver msg s)))
                 (resumed (jobs (socket_onmessage msg s)) (awaiting s)))"
  using socket_onmessage_jobs [OF assms, of msg]
  by (simp add: deliver_requests_finally)
     (simp add: deliver_def checkpoint_eq resume_all_registry finally_all_registry
        socket_onmessage_def)

lemma deliver_subscriptions:
  "subscriptions (deliver msg s) =
     fold (settle (requests (deliver msg s)))
          (resumed (jobs (socket_onmessage msg s)) (awaiting s)) (subscriptions s)"
  by (simp add: deliver_requests_finally)
     (simp add: deliver_def checkpoint_eq resume_all_subscriptions socket_onmessage_def)

subsection \<open>Consistency under delivery\<close>

lemma settle_length [simp]: "length (settle rs c subs) = length subs"
  by (simp add: settle_def split: promise.splits)

lemma settle_all_length [simp]: "length (fold (settle rs) cs subs) = length subs"
  by (induction cs arbitrary: subs) simp_all

lemma deliver_subscriptions_length [simp]:
  "length (subscriptions (deliver msg s)) = length (subscriptions s)"
  by (simp add: deliver_def checkpoint_eq resume_all_subscriptions)
     (simp add: socket_onmessage_def)

lemma known_request_cong:
  "length rs' = length rs \<Longrightarrow> (\<And>q. unlisten_var (rs' ! q) = unlisten_var (rs ! q)) \<Longrightarrow>
   known_request rs' n cb = known_request rs n cb"
  by (simp add: known_request_def split: MessageCallback.splits)

lemma known_request_deliver [simp]:
  "known_request (requests (deliver msg s)) n cb = known_request (requests s) n cb"
  by (rule known_request_cong) simp_all

lemma new_listener_cases:
  "cb \<in> set (new_listener rs c) \<Longrightarrow> cb = EventListener (result c) (eventsArr c) (callback c)"
  by (auto simp: new_listener_def split: promise.splits if_splits)

lemma consistent_deliver:
  assumes "consistent s"
  shows "consistent (deliver msg s)"
proof -
  have j: "jobs s = []"
    using assms by (simp add: consistent_def)
  let ?n = "length (subscriptions s)"
  let ?ps = "jobs (socket_onmessage msg s)"
  have old: "\<forall>cb \<in> set (onMessageCallbacks s). known_request (requests s) ?n cb"
    using assms by (simp add: consistent_def)
  have "known_request (requests s) ?n cb"
    if "c \<in> set (resumed ?ps (awaiting s))" and "cb \<in> set (new_listener rs c)" for c cb rs
  proof -
    have "c \<in> set (awaiting s)"
      using that(1) by (simp add: set_resumed)
    then have "result c < ?n"
      using assms by (simp add: consistent_def)
    then show ?thesis
      using new_listener_cases [OF that(2)] by (simp add: known_request_def)
  qed
  then have "\<forall>cb \<in> set (onMessageCallbacks (deliver msg s)).
      known_request (requests (deliver msg s)) (length (subscriptions (deliver msg s))) cb"
    using old by (auto simp: deliver_registry_exact [OF j])
  moreover have "\<forall>q < length (requests (deliver msg s)). own_handle q (requests (deliver msg s) ! q)"
    using assms by (simp add: consistent_def own_handle_def)
  moreover have "\<forall>c \<in> set (awaiting (deliver msg s)).
      awaited c < length (requests (deliver msg s)) \<and> result c < length (subscriptions (deliver msg s))"
    using assms by (simp add: deliver_awaiting [OF j] consistent_def)
  ultimately show ?thesis
    by (simp add: consistent_def)
qed

subsection \<open>A request under delivery\<close>

lemma in_flight_fired:
  assumes "consistent s" and "in_flight p c s"
  shows "p \<in> fired msg s \<longleftrightarrow> is_reply c msg"
proof
  assume "p \<in> fired msg s"
  then obtain m where m: "ReplyListener p m \<in> set (onMessageCallbacks s)" "is_reply m msg"
    by (auto simp: fired_def fires_def)
  then have "known_request (requests s) (length (subscriptions s)) (ReplyListener p m)"
    using assms(1) by (simp add: consistent_def)
  then have "m = c"
    using assms(2) by (simp add: known_request_def in_flight_def)
  then show "is_reply c msg"
    using m by simp
next
  assume "is_reply c msg"
  then show "p \<in> fired msg s"
    using assms(2) by (auto simp: fired_def fires_def in_flight_def)
qed

lemma fired_handle:
  assumes "consistent s" and "q \<in> fired msg s"
  shows "\<exists>m. unlisten_var (requests s ! q) = Some (UnlistenMessage (ReplyListener q m))"
proof -
  have "q < length (requests s)"
    using assms(2) by (simp add: fired_def)
  then have "own_handle q (requests s ! q)"
    using assms(1) by (simp add: consistent_def)
  then show ?thesis
    by (auto simp: own_handle_def split: option.splits UnlistenFn.splits MessageCallback.splits)
qed

lemma deliver_reply_listener:
  assumes "consistent s"
  shows "ReplyListener p c \<in> set (onMessageCallbacks (deliver msg s)) \<longleftrightarrow>
     ReplyListener p c \<in> set (onMessageCallbacks s) \<and> p \<notin> fired msg s"
proof -
  have j: "jobs s = []"
    using assms by (simp add: consistent_def)
  obtain new where reg: "onMessageCallbacks (deliver msg s) =
      filter (\<lambda>cb. \<forall>q\<in>fired msg s. unlisten_var (requests s ! q) \<noteq> Some (UnlistenMessage cb))
        (onMessageCallbacks s) @ new"
    and new: "\<forall>cb\<in>set new. is_event_listener cb"
    using deliver_registry [OF j, of msg] by blast
  have "ReplyListener p c \<notin> set new"
    using new by (auto simp: is_event_listener_def)
  moreover have "(\<forall>q\<in>fired msg s. unlisten_var (requests s ! q) \<noteq> Some (UnlistenMessage (ReplyListener p c)))
      \<longleftrightarrow> p \<notin> fired msg s"
    if "ReplyListener p c \<in> set (onMessageCallbacks s)"
  proof -
    have "known_request (requests s) (length (subscriptions s)) (ReplyListener p c)"
      using assms that by (simp add: consistent_def)
    then have own: "unlisten_var (requests s ! p) = Some (UnlistenMessage (ReplyListener p c))"
      by (simp add: known_request_def)
    show ?thesis
      using own fired_handle [OF assms, of _ msg] by fastforce
  qed
  ultimately show ?thesis
    by (auto simp: reg)
qed

lemma deliver_answers:
  assumes "consistent s" and "in_flight p c s" and "is_reply c msg"
  shows "answered p c msg (deliver msg s)"
proof -
  have j: "jobs s = []"
    using assms(1) by (simp add: consistent_def)
  have f: "p \<in> fired msg s"
    using in_flight_fired [OF assms(1,2)] assms(3) by simp
  show ?thesis
    using f assms(2) deliver_reply_listener [OF assms(1), of p c msg]
    by (simp add: answered_def in_flight_def deliver_executor deliver_returned [OF j])
qed

lemma deliver_keeps_in_flight:
  assumes "consistent s" and "in_flight p c s" and "\<not> is_reply c msg"
  shows "in_flight p c (deliver msg s)"
proof -
  have j: "jobs s = []"
    using assms(1) by (simp add: consistent_def)
  have f: "p \<notin> fired msg s"
    using in_flight_fired [OF assms(1,2)] assms(3) by simp
  show ?thesis
    using f assms(2) deliver_reply_listener [OF assms(1), of p c msg]
    by (simp add: in_flight_def deliver_executor deliver_returned [OF j])
qed

lemma deliver_keeps_answered:
  assumes "consistent s" and "answered p c m s"
  shows "answered p c m (deliver msg s)"
proof -
  have j: "jobs s = []"
    using assms(1) by (simp add: consistent_def)
  have f: "p \<notin> fired msg s"
    using assms(2) by (simp add: fired_def answered_def)
  show ?thesis
    using f assms(2) deliver_reply_listener [OF assms(1), of p c msg]
    by (simp add: answered_def deliver_executor deliver_returned [OF j])
qed

lemma consistent_deliver_all:
  "consistent s \<Longrightarrow> consistent (deliver_all msgs s)"
  by (induction msgs arbitrary: s) (simp_all add: deliver_all_def consistent_deliver)

lemma deliver_all_Cons [simp]:
  "deliver_all (msg # msgs) s = deliver_all msgs (deliver msg s)"
  "deliver_all [] s = s"
  by (simp_all add: deliver_all_def)

lemma deliver_all_keeps_answered:
  "consistent s \<Longrightarrow> answered p c m s \<Longrightarrow> answered p c m (deliver_all msgs s)"
  by (induction msgs arbitrary: s) (simp_all add: consistent_deliver deliver_keeps_answered)

lemma deliver_all_request:
  assumes "consistent s" and "in_flight p c s"
  shows "case find (is_reply c) msgs of
           None \<Rightarrow> in_flight p c (deliver_all msgs s)
         | Some m \<Rightarrow> answered p c m (deliver_all msgs s)"
  using assms
proof (induction msgs arbitrary: s)
  case Nil
  then show ?case by simp
next
  case (Cons msg msgs)
  show ?case
  proof (cases "is_reply c msg")
    case True
    then show ?thesis
      using Cons.prems
      by (simp add: deliver_all_keeps_answered consistent_deliver deliver_answers)
  next
    case False
    then show ?thesis
      using Cons.prems Cons.IH [of "deliver msg s"]
      by (simp add: consistent_deliver deliver_keeps_in_flight split: option.splits)
  qed
qed

subsection \<open>Issuing a request\<close>

lemma sendAndWaitReply_eq:
  "sendAndWaitReply c s =
     (length (requests s),
      s\<lparr>requests := requests s @
           [\<lparr>unlisten_var = Some (UnlistenMessage (ReplyListener (length (requests s)) c)),
             executor_promise = Pending, returned_promise = Pending\<rparr>],
        socket := WebSocket_send c (socket s),
        onMessageCallbacks := onMessageCallbacks s @ [ReplyListener (length (requests s)) c],
        trace := trace s @ [SocketSend c,
                   Registered (UnlistenMessage (ReplyListener (length (requests s)) c))]\<rparr>)"
  by (simp add: sendAndWaitReply_def Let_def send_def onMessage_def)

lemma known_request_append:
  "known_request rs n cb \<Longrightarrow> known_request (rs @ [r]) n cb"
  by (cases cb) (simp_all add: known_request_def nth_append)

lemma consistent_sendAndWaitReply:
  assumes "consistent s"
  shows "consistent (snd (sendAndWaitReply c s))"
proof -
  have "\<forall>cb \<in> set (onMessageCallbacks s).
      known_request (requests s @
           [\<lparr>unlisten_var = Some (UnlistenMessage (ReplyListener (length (requests s)) c)),
             executor_promise = Pending, returned_promise = Pending\<rparr>])
        (length (subscriptions s)) cb"
    using assms by (simp add: consistent_def known_request_append)
  then show ?thesis
    using assms
    by (auto simp: sendAndWaitReply_eq consistent_def nth_append own_handle_def
        known_request_def less_Suc_eq)
qed

lemma in_flight_sendAndWaitReply:
  "in_flight (fst (sendAndWaitReply c s)) c (snd (sendAndWaitReply c s))"
  by (simp add: sendAndWaitReply_eq in_flight_def)

lemma sendAndWaitReply_keeps_in_flight:
  "in_flight p c s \<Longrightarrow> in_flight p c (snd (sendAndWaitReply c' s))"
  by (simp add: sendAndWaitReply_eq in_flight_def nth_append)

lemma consistent_new: "consistent (GwmClient_new opts)"
  by (simp add: consistent_def GwmClient_new_def)

subsection \<open>A request that is alone\<close>

lemma deliver_registry_quiet:
  assumes "jobs s = []" and "\<forall>c\<in>set (awaiting s). awaited c \<notin> fired msg s"
  shows "onMessageCallbacks (deliver msg s) =
     filter (\<lambda>cb. \<forall>q\<in>fired msg s. unlisten_var (requests s ! q) \<noteq> Some (UnlistenMessage cb))
       (onMessageCallbacks s)"
proof -
  have "set (resumed (jobs (socket_onmessage msg s)) (awaiting s)) = {}"
    using assms(2) socket_onmessage_jobs [OF assms(1), of msg] by (auto simp: set_resumed)
  then have "resumed (jobs (socket_onmessage msg s)) (awaiting s) = []"
    by simp
  then show ?thesis
    using socket_onmessage_jobs [OF assms(1), of msg]
    by (simp add: deliver_def checkpoint_eq resume_all_registry finally_all_registry)
       (simp add: socket_onmessage_def)
qed

lemma unanswered_tail: "unanswered (msg # msgs) reg \<Longrightarrow> unanswered msgs reg"
  by (simp add: unanswered_def)

lemma unanswered_fired:
  assumes "unanswered msgs (onMessageCallbacks s)" and "msg \<in> set msgs"
  shows "fired msg s = {}"
proof -
  have "\<not> fires msg q (onMessageCallbacks s)" for q
  proof
    assume "fires msg q (onMessageCallbacks s)"
    then obtain m where "ReplyListener q m \<in> set (onMessageCallbacks s)" and "is_reply m msg"
      by (auto simp: fires_def)
    then have "accepts (ReplyListener q m) msg" and "\<not> accepts (ReplyListener q m) msg"
      using assms by (auto simp: accepts_def unanswered_def)
    then show False
      by simp
  qed
  then show ?thesis
    by (simp add: fired_def)
qed

lemma deliver_unanswered:
  assumes "consistent s" and "unanswered (msg # msgs) (onMessageCallbacks s)"
  shows "onMessageCallbacks (deliver msg s) = onMessageCallbacks s"
proof -
  have "fired msg s = {}"
    by (rule unanswered_fired [OF assms(2)]) simp
  then show ?thesis
    using assms(1) deliver_registry_quiet [of s msg] by (simp add: consistent_def)
qed

lemma deliver_all_unanswered:
  "consistent s \<Longrightarrow> unanswered msgs (onMessageCallbacks s) \<Longrightarrow>
   onMessageCallbacks (deliver_all msgs s) = onMessageCallbacks s"
proof (induction msgs arbitrary: s)
  case Nil
  show ?case by simp
next
  case (Cons msg msgs)
  have same: "onMessageCallbacks (deliver msg s) = onMessageCallbacks s"
    by (rule deliver_unanswered [OF Cons.prems])
  have "unanswered msgs (onMessageCallbacks (deliver msg s))"
    using unanswered_tail [OF Cons.prems(2)] by (simp add: same)
  then show ?case
    using Cons.prems(1) by (simp add: Cons.IH consistent_deliver same)
qed

lemma alone_fired:
  assumes "alone p c reg msgs s" and "msg \<in> set msgs"
  shows "fired msg s \<subseteq> {p}"
proof
  fix q
  assume "q \<in> fired msg s"
  then obtain m where m: "ReplyListener q m \<in> set (onMessageCallbacks s)" "is_reply m msg"
    by (auto simp: fired_def fires_def)
  have "ReplyListener q m \<notin> set reg"
  proof
    assume "ReplyListener q m \<in> set reg"
    then have "\<not> accepts (ReplyListener q m) msg"
      using assms by (simp add: alone_def unanswered_def)
    then show False
      using m(2) by (simp add: accepts_def)
  qed
  then show "q \<in> {p}"
    using m(1) assms(1) by (simp add: alone_def)
qed

lemma alone_step:
  assumes "consistent s" and "in_flight p c s" and "alone p c reg (msg # msgs) s"
  shows "if is_reply c msg
         then onMessageCallbacks (deliver msg s) = reg
         else alone p c reg msgs (deliver msg s)"
proof -
  have j: "jobs s = []"
    using assms(1) by (simp add: consistent_def)
  have sub: "fired msg s \<subseteq> {p}"
    by (rule alone_fired [OF assms(3)]) simp
  have quiet: "\<forall>k\<in>set (awaiting s). awaited k \<notin> fired msg s"
    using sub assms(3) by (auto simp: alone_def)
  note reg = deliver_registry_quiet [OF j quiet]
  have own: "unlisten_var (requests s ! p) = Some (UnlistenMessage (ReplyListener p c))"
    using assms(2) by (simp add: in_flight_def)
  have notin: "ReplyListener p c \<notin> set reg"
    using assms(3) by (simp add: alone_def)
  show ?thesis
  proof (cases "is_reply c msg")
    case True
    then have "fired msg s = {p}"
      using sub in_flight_fired [OF assms(1,2), of msg] by auto
    then have "onMessageCallbacks (deliver msg s) = reg"
      using assms(3) notin own by (auto simp: reg alone_def filter_id_conv)
    then show ?thesis
      using True by simp
  next
    case False
    then have "fired msg s = {}"
      using sub in_flight_fired [OF assms(1,2), of msg] by auto
    then show ?thesis
      using False assms(3) unanswered_tail [of msg msgs reg]
      by (simp add: reg alone_def deliver_awaiting [OF j])
  qed
qed

lemma alone_round_trip:
  assumes "consistent s" and "in_flight p c s" and "alone p c reg msgs s"
    and "find (is_reply c) msgs = Some m"
  shows "onMessageCallbacks (deliver_all msgs s) = reg"
  using assms
proof (induction msgs arbitrary: s)
  case Nil
  then show ?case by simp
next
  case (Cons msg msgs)
  have tail: "unanswered msgs reg"
    using Cons.prems(3) by (simp add: alone_def unanswered_def)
  show ?case
  proof (cases "is_reply c msg")
    case True
    then have "onMessageCallbacks (deliver msg s) = reg"
      using alone_step [OF Cons.prems(1,2,3)] by simp
    then show ?thesis
      using tail deliver_all_unanswered [OF consistent_deliver [OF Cons.prems(1)], of msgs msg]
      by simp
  next
    case False
    then show ?thesis
      using alone_step [OF Cons.prems(1,2,3)] Cons.prems
      by (simp add: Cons.IH consistent_deliver deliver_keeps_in_flight)
  qed
qed

lemma alone_sendAndWaitReply:
  assumes "consistent s" and "unanswered msgs (onMessageCallbacks s)"
  shows "alone (fst (sendAndWaitReply c s)) c (onMessageCallbacks s) msgs
           (snd (sendAndWaitReply c s))"
proof -
  have "ReplyListener (length (requests s)) c \<notin> set (onMessageCallbacks s)"
  proof
    assume "ReplyListener (length (requests s)) c \<in> set (onMessageCallbacks s)"
    then have "known_request (requests s) (length (subscriptions s))
        (ReplyListener (length (requests s)) c)"
      using assms(1) by (simp add: consistent_def)
    then show False
      by (simp add: known_request_def)
  qed
  moreover have "\<forall>k\<in>set (awaiting s). awaited k \<noteq> length (requests s)"
    using assms(1) by (fastforce simp: consistent_def)
  ultimately show ?thesis
    using assms(2) by (simp add: sendAndWaitReply_eq alone_def)
qed

subsection \<open>Event listeners under delivery\<close>

lemma filter_kept_events:
  assumes "consistent s" and "\<And>cb. P cb \<Longrightarrow> is_event_listener cb"
  shows "filter (\<lambda>cb. (\<forall>q\<in>fired msg s.
            unlisten_var (requests s ! q) \<noteq> Some (UnlistenMessage cb)) \<and> P cb) reg = filter P reg"
proof -
  have "\<forall>q\<in>fired msg s. unlisten_var (requests s ! q) \<noteq> Some (UnlistenMessage cb)" if "P cb" for cb
  proof
    fix q
    assume "q \<in> fired msg s"
    then obtain m where "unlisten_var (requests s ! q) = Some (UnlistenMessage (ReplyListener q m))"
      using fired_handle [OF assms(1)] by blast
    moreover have "cb \<noteq> ReplyListener q m"
      using assms(2) [OF that] by (auto simp: is_event_listener_def)
    ultimately show "unlisten_var (requests s ! q) \<noteq> Some (UnlistenMessage cb)"
      by simp
  qed
  then show ?thesis
    by (auto intro: filter_cong)
qed

lemma deliver_listening:
  assumes "consistent s"
  shows "filter (uses f) (onMessageCallbacks (deliver msg s)) =
     filter (uses f) (onMessageCallbacks s) @
     concat (map (new_listener (requests (deliver msg s)))
                 (resumed (jobs (socket_onmessage msg s))
                    (filter (\<lambda>c. callback c = f) (awaiting s))))"
proof -
  have j: "jobs s = []"
    using assms by (simp add: consistent_def)
  have ev: "\<And>cb. uses f cb \<Longrightarrow> is_event_listener cb"
    by (auto simp: uses_def is_event_listener_def split: MessageCallback.splits)
  have new: "filter (uses f) (concat (map (new_listener rs) cs)) =
      concat (map (new_listener rs) (filter (\<lambda>c. callback c = f) cs))" for rs cs
    by (induction cs) (auto simp: new_listener_def uses_def split: promise.splits)
  show ?thesis
    by (simp add: deliver_registry_exact [OF j] filter_kept_events [OF assms ev] new
        filter_resumed)
qed

lemma deliver_made_by:
  assumes "consistent s"
  shows "filter (made_by k) (onMessageCallbacks (deliver msg s)) =
     filter (made_by k) (onMessageCallbacks s) @
     concat (map (new_listener (requests (deliver msg s)))
                 (resumed (jobs (socket_onmessage msg s))
                    (filter (\<lambda>c. result c = k) (awaiting s))))"
proof -
  have j: "jobs s = []"
    using assms by (simp add: consistent_def)
  have ev: "\<And>cb. made_by k cb \<Longrightarrow> is_event_listener cb"
    by (auto simp: made_by_def is_event_listener_def split: MessageCallback.splits)
  have new: "filter (made_by k) (concat (map (new_listener rs) cs)) =
      concat (map (new_listener rs) (filter (\<lambda>c. result c = k) cs))" for rs cs
    by (induction cs) (auto simp: new_listener_def made_by_def split: promise.splits)
  show ?thesis
    by (simp add: deliver_registry_exact [OF j] filter_kept_events [OF assms ev] new
        filter_resumed)
qed

lemma settle_nth:
  "settle rs c subs ! k =
     (if result c = k \<and> k < length subs then subscribe_outcome rs c (subs ! k) else subs ! k)"
  by (auto simp: settle_def subscribe_outcome_def nth_list_update_total split: promise.splits)

lemma subscribe_outcome_idem [simp]:
  "subscribe_outcome rs c (subscribe_outcome rs c old) = subscribe_outcome rs c old"
  by (simp add: subscribe_outcome_def split: promise.splits)

lemma settle_all_unique:
  assumes "\<forall>c\<in>set cs. result c = k \<longrightarrow> c = c0"
  shows "fold (settle rs) cs subs ! k =
     (if c0 \<in> set cs \<and> result c0 = k \<and> k < length subs
      then subscribe_outcome rs c0 (subs ! k) else subs ! k)"
  using assms
proof (induction cs arbitrary: subs)
  case Nil
  show ?case by simp
next
  case (Cons c cs)
  have rest: "\<forall>c\<in>set cs. result c = k \<longrightarrow> c = c0"
    using Cons.prems by simp
  note IH = Cons.IH [OF rest, of "settle rs c subs"]
  show ?case
  proof (cases "result c = k")
    case True
    then have "c = c0"
      using Cons.prems by simp
    then show ?thesis
      using True IH by (auto simp: settle_nth)
  next
    case False
    then have "c \<noteq> c0 \<or> result c0 \<noteq> k"
      by auto
    then show ?thesis
      using False by (auto simp: IH settle_nth)
  qed
qed

subsection \<open>A subscription under delivery\<close>

lemma deliver_awaiting_filter:
  "jobs s = [] \<Longrightarrow>
   filter Q (awaiting (deliver msg s)) =
     filter (\<lambda>c. awaited c \<notin> fired msg s) (filter Q (awaiting s))"
  by (simp add: deliver_awaiting conj_commute)

lemma waiting_step_idle:
  assumes "consistent s" and "waiting c0 s" and "awaited c0 \<notin> fired msg s"
  shows "waiting c0 (deliver msg s)"
proof -
  have j: "jobs s = []"
    using assms(1) by (simp add: consistent_def)
  have "resumed (jobs (socket_onmessage msg s)) [c0] = []"
    using assms(3) socket_onmessage_jobs [OF j, of msg] by (simp add: resumed_single)
  then show ?thesis
    using assms(2,3)
    by (simp add: waiting_def deliver_awaiting_filter [OF j] deliver_made_by [OF assms(1)])
qed

lemma waiting_step_fired:
  assumes "consistent s" and "waiting c0 s" and "awaited c0 \<in> fired msg s"
  shows "filter (\<lambda>c. result c = result c0) (awaiting (deliver msg s)) = []"
    and "filter (made_by (result c0)) (onMessageCallbacks (deliver msg s)) =
           new_listener (requests (deliver msg s)) c0"
    and "subscriptions (deliver msg s) ! result c0 =
           subscribe_outcome (requests (deliver msg s)) c0 (subscriptions s ! result c0)"
proof -
  have j: "jobs s = []"
    using assms(1) by (simp add: consistent_def)
  let ?ps = "jobs (socket_onmessage msg s)"
  have ps: "set ?ps = fired msg s"
    by (rule socket_onmessage_jobs [OF j])
  have one: "resumed ?ps [c0] = [c0]"
    using assms(3) ps by (simp add: resumed_single)
  show "filter (\<lambda>c. result c = result c0) (awaiting (deliver msg s)) = []"
    using assms(2,3) by (simp add: waiting_def deliver_awaiting_filter [OF j])
  show "filter (made_by (result c0)) (onMessageCallbacks (deliver msg s)) =
           new_listener (requests (deliver msg s)) c0"
    using assms(2) one by (simp add: waiting_def deliver_made_by [OF assms(1)])
  have mem: "c0 \<in> set (filter (\<lambda>c. result c = result c0) (awaiting s))"
    using assms(2) by (simp add: waiting_def)
  have uniq: "\<forall>c\<in>set (resumed ?ps (awaiting s)). result c = result c0 \<longrightarrow> c = c0"
  proof (intro ballI impI)
    fix c
    assume "c \<in> set (resumed ?ps (awaiting s))" and "result c = result c0"
    then have "c \<in> set (filter (\<lambda>c. result c = result c0) (awaiting s))"
      by (simp add: set_resumed)
    then have "c \<in> set [c0]"
      using assms(2) unfolding waiting_def by (elim conjE) (simp only:)
    then show "c = c0"
      by simp
  qed
  have "c0 \<in> set (resumed ?ps (awaiting s))"
    using mem assms(3) ps by (simp add: set_resumed)
  then show "subscriptions (deliver msg s) ! result c0 =
           subscribe_outcome (requests (deliver msg s)) c0 (subscriptions s ! result c0)"
    using assms(2) by (simp add: deliver_subscriptions settle_all_unique [OF uniq] waiting_def)
qed

lemma settle_all_other:
  "\<forall>c\<in>set cs. result c \<noteq> k \<Longrightarrow> fold (settle rs) cs subs ! k = subs ! k"
  by (induction cs arbitrary: subs) (simp_all add: settle_nth)

lemma settled_step:
  assumes "consistent s" and "filter (\<lambda>c. result c = k) (awaiting s) = []"
  shows "filter (\<lambda>c. result c = k) (awaiting (deliver msg s)) = []"
    and "filter (made_by k) (onMessageCallbacks (deliver msg s)) =
           filter (made_by k) (onMessageCallbacks s)"
    and "subscriptions (deliver msg s) ! k = subscriptions s ! k"
proof -
  have j: "jobs s = []"
    using assms(1) by (simp add: consistent_def)
  show "filter (\<lambda>c. result c = k) (awaiting (deliver msg s)) = []"
    using assms(2) by (simp add: deliver_awaiting_filter [OF j])
  show "filter (made_by k) (onMessageCallbacks (deliver msg s)) =
           filter (made_by k) (onMessageCallbacks s)"
    using assms(2) by (simp add: deliver_made_by [OF assms(1)])
  have "\<forall>c\<in>set (resumed (jobs (socket_onmessage msg s)) (awaiting s)). result c \<noteq> k"
    using assms(2) by (auto simp: set_resumed filter_empty_conv)
  then show "subscriptions (deliver msg s) ! k = subscriptions s ! k"
    by (simp add: deliver_subscriptions settle_all_other)
qed

lemma settled_all:
  assumes "consistent s" and "filter (\<lambda>c. result c = k) (awaiting s) = []"
  shows "filter (made_by k) (onMessageCallbacks (deliver_all msgs s)) =
           filter (made_by k) (onMessageCallbacks s) \<and>
         subscriptions (deliver_all msgs s) ! k = subscriptions s ! k"
  using assms
proof (induction msgs arbitrary: s)
  case Nil
  show ?case by simp
next
  case (Cons msg msgs)
  note step = settled_step [OF Cons.prems, of msg]
  show ?case
    using Cons.IH [OF consistent_deliver [OF Cons.prems(1)] step(1)]
    by (simp add: step)
qed

lemma subscribe_calls_uses:
  "subscribe_calls f (concat (map (listener_calls msg) cbs)) =
     subscribe_calls f (concat (map (listener_calls msg) (filter (uses f) cbs)))"
proof (induction cbs)
  case Nil
  show ?case by simp
next
  case (Cons cb cbs)
  then show ?case
    by (cases cb) (auto simp: listener_calls_def uses_def)
qed

lemma deliver_subscribe_calls:
  "subscribe_calls f (trace (deliver msg s)) =
     subscribe_calls f (trace s) @
     subscribe_calls f (concat (map (listener_calls msg) (filter (uses f) (onMessageCallbacks s))))"
proof -
  have "subscribe_calls f (trace (deliver msg s)) =
      subscribe_calls f (filter is_call (trace (deliver msg s)))"
    by simp
  also have "\<dots> = subscribe_calls f (trace s) @
      subscribe_calls f (concat (map (listener_calls msg) (onMessageCallbacks s)))"
    by (simp only: deliver_calls subscribe_calls_append subscribe_calls_filter)
  finally show ?thesis
    using subscribe_calls_uses [of f msg "onMessageCallbacks s"] by simp
qed

lemma sole_waiter_step_idle:
  assumes "consistent s" and "sole_waiter c0 s" and "awaited c0 \<notin> fired msg s"
  shows "sole_waiter c0 (deliver msg s)"
    and "subscribe_calls (callback c0) (trace (deliver msg s)) =
           subscribe_calls (callback c0) (trace s)"
proof -
  have j: "jobs s = []"
    using assms(1) by (simp add: consistent_def)
  have "resumed (jobs (socket_onmessage msg s)) [c0] = []"
    using assms(3) socket_onmessage_jobs [OF j, of msg] by (simp add: resumed_single)
  then show "sole_waiter c0 (deliver msg s)"
    using assms(2,3)
    by (simp add: sole_waiter_def deliver_awaiting_filter [OF j] deliver_listening [OF assms(1)])
  show "subscribe_calls (callback c0) (trace (deliver msg s)) =
           subscribe_calls (callback c0) (trace s)"
    using assms(2) by (simp add: deliver_subscribe_calls sole_waiter_def)
qed

lemma sole_waiter_step_fired:
  assumes "consistent s" and "sole_waiter c0 s" and "awaited c0 \<in> fired msg s"
  shows "filter (\<lambda>c. callback c = callback c0) (awaiting (deliver msg s)) = []"
    and "filter (uses (callback c0)) (onMessageCallbacks (deliver msg s)) =
           new_listener (requests (deliver msg s)) c0"
    and "subscribe_calls (callback c0) (trace (deliver msg s)) =
           subscribe_calls (callback c0) (trace s)"
proof -
  have j: "jobs s = []"
    using assms(1) by (simp add: consistent_def)
  have one: "resumed (jobs (socket_onmessage msg s)) [c0] = [c0]"
    using assms(3) socket_onmessage_jobs [OF j, of msg] by (simp add: resumed_single)
  show "filter (\<lambda>c. callback c = callback c0) (awaiting (deliver msg s)) = []"
    using assms(2,3) by (simp add: sole_waiter_def deliver_awaiting_filter [OF j])
  show "filter (uses (callback c0)) (onMessageCallbacks (deliver msg s)) =
           new_listener (requests (deliver msg s)) c0"
    using assms(2) one by (simp add: sole_waiter_def deliver_listening [OF assms(1)])
  show "subscribe_calls (callback c0) (trace (deliver msg s)) =
           subscribe_calls (callback c0) (trace s)"
    using assms(2) by (simp add: deliver_subscribe_calls sole_waiter_def)
qed

lemma detached_step:
  assumes "consistent s" and "filter (\<lambda>c. callback c = f) (awaiting s) = []"
  shows "filter (\<lambda>c. callback c = f) (awaiting (deliver msg s)) = []"
    and "filter (uses f) (onMessageCallbacks (deliver msg s)) =
           filter (uses f) (onMessageCallbacks s)"
proof -
  have j: "jobs s = []"
    using assms(1) by (simp add: consistent_def)
  show "filter (\<lambda>c. callback c = f) (awaiting (deliver msg s)) = []"
    using assms(2) by (simp add: deliver_awaiting_filter [OF j])
  show "filter (uses f) (onMessageCallbacks (deliver msg s)) =
           filter (uses f) (onMessageCallbacks s)"
    using assms(2) by (simp add: deliver_listening [OF assms(1)])
qed

lemma detached_all:
  assumes "consistent s" and "filter (\<lambda>c. callback c = f) (awaiting s) = []"
  shows "filter (\<lambda>c. callback c = f) (awaiting (deliver_all msgs s)) = [] \<and>
         filter (uses f) (onMessageCallbacks (deliver_all msgs s)) =
           filter (uses f) (onMessageCallbacks s) \<and>
         (filter (uses f) (onMessageCallbacks s) = [] \<longrightarrow>
            subscribe_calls f (trace (deliver_all msgs s)) = subscribe_calls f (trace s))"
  using assms
proof (induction msgs arbitrary: s)
  case Nil
  then show ?case by simp
next
  case (Cons msg msgs)
  note step = detached_step [OF Cons.prems, of msg]
  show ?case
    using Cons.IH [OF consistent_deliver [OF Cons.prems(1)] step(1)]
    by (simp add: step deliver_subscribe_calls)
qed

subsection \<open>Issuing a subscription\<close>

lemma subscribe_eq:
  "subscribe event f s =
     (length (subscriptions s),
      (snd (sendAndWaitReply (subscribe_command event) s))
        \<lparr>subscriptions := subscriptions s @ [Pending],
         awaiting := awaiting s @ [suspended event f s]\<rparr>)"
  by (simp add: subscribe_def sendAndWaitReply_eq subscribe_command_def suspended_def Let_def)

lemma known_request_more:
  "known_request rs n cb \<Longrightarrow> known_request rs (Suc n) cb"
  by (cases cb) (simp_all add: known_request_def)

lemma consistent_subscribe:
  assumes "consistent s"
  shows "consistent (snd (subscribe event f s))"
proof -
  let ?s1 = "snd (sendAndWaitReply (subscribe_command event) s)"
  have c1: "consistent ?s1"
    by (rule consistent_sendAndWaitReply [OF assms])
  have [simp]: "subscriptions ?s1 = subscriptions s" "awaiting ?s1 = awaiting s"
    "length (requests ?s1) = Suc (length (requests s))"
    by (simp_all add: sendAndWaitReply_eq)
  show ?thesis
    using c1
    by (auto simp: subscribe_eq consistent_def suspended_def known_request_more)
qed

lemma in_flight_subscribe:
  "in_flight (length (requests s)) (subscribe_command event) (snd (subscribe event f s))"
  using in_flight_sendAndWaitReply [of "subscribe_command event" s]
  by (simp add: subscribe_eq in_flight_def) (simp add: sendAndWaitReply_eq)

lemma waiting_subscribe:
  assumes "consistent s"
  shows "waiting (suspended event f s) (snd (subscribe event f s))"
proof -
  have "\<forall>c\<in>set (awaiting s). result c \<noteq> length (subscriptions s)"
    using assms by (fastforce simp: consistent_def)
  then have a: "filter (\<lambda>c. result c = length (subscriptions s)) (awaiting s) = []"
    by (simp add: filter_empty_conv)
  have "\<forall>cb\<in>set (onMessageCallbacks s). \<not> made_by (length (subscriptions s)) cb"
  proof
    fix cb
    assume "cb \<in> set (onMessageCallbacks s)"
    then have "known_request (requests s) (length (subscriptions s)) cb"
      using assms by (simp add: consistent_def)
    then show "\<not> made_by (length (subscriptions s)) cb"
      by (cases cb) (simp_all add: known_request_def made_by_def)
  qed
  then have b: "filter (made_by (length (subscriptions s))) (onMessageCallbacks s) = []"
    by (simp add: filter_empty_conv)
  show ?thesis
    using a b
    by (simp add: waiting_def subscribe_eq sendAndWaitReply_eq suspended_def made_by_def)
qed

lemma sole_waiter_subscribe:
  assumes "unused f s"
  shows "sole_waiter (suspended event f s) (snd (subscribe event f s))"
proof -
  have a: "filter (\<lambda>c. callback c = f) (awaiting s) = []"
    using assms by (simp add: unused_def filter_empty_conv)
  have b: "filter (uses f) (onMessageCallbacks s) = []"
    using assms by (simp add: unused_def filter_empty_conv)
  show ?thesis
    using a b
    by (simp add: sole_waiter_def subscribe_eq sendAndWaitReply_eq suspended_def uses_def)
qed


lemma outcome_of_reply:
  assumes "returned_promise (rs ! awaited c0) = Fulfilled r"
  shows "subscribe_outcome rs c0 old =
           (if truthy (error r)
            then Rejected (subscribe_error (eventsArr c0) (the (error r)))
            else Fulfilled (UnlistenMessage (EventListener (result c0) (eventsArr c0) (callback c0))))"
    and "new_listener rs c0 =
           (if truthy (error r) then []
            else [EventListener (result c0) (eventsArr c0) (callback c0)])"
  using assms by (simp_all add: subscribe_outcome_def new_listener_def)

lemma subscription_settles:
  assumes "consistent s" and "in_flight (awaited c0) cmd s" and "waiting c0 s"
    and "find (is_reply cmd) msgs = Some r"
  shows "subscriptions (deliver_all msgs s) ! result c0 =
           (if truthy (error r)
            then Rejected (subscribe_error (eventsArr c0) (the (error r)))
            else Fulfilled (UnlistenMessage (EventListener (result c0) (eventsArr c0) (callback c0))))
         \<and> filter (made_by (result c0)) (onMessageCallbacks (deliver_all msgs s)) =
           (if truthy (error r) then []
            else [EventListener (result c0) (eventsArr c0) (callback c0)])"
  using assms
proof (induction msgs arbitrary: s)
  case Nil
  then show ?case by simp
next
  case (Cons msg msgs)
  note c' = consistent_deliver [OF Cons.prems(1), of msg]
  show ?case
  proof (cases "is_reply cmd msg")
    case True
    then have r: "r = msg"
      using Cons.prems(4) by simp
    have f: "awaited c0 \<in> fired msg s"
      using in_flight_fired [OF Cons.prems(1,2)] True by simp
    have "answered (awaited c0) cmd msg (deliver msg s)"
      by (rule deliver_answers [OF Cons.prems(1,2) True])
    then have ret: "returned_promise (requests (deliver msg s) ! awaited c0) = Fulfilled r"
      by (simp add: answered_def r)
    note fired = waiting_step_fired [OF Cons.prems(1,3) f]
    note rest = settled_all [OF c' fired(1), of msgs]
    show ?thesis
      using rest by (simp add: fired outcome_of_reply [OF ret])
  next
    case False
    then have f: "awaited c0 \<notin> fired msg s"
      using in_flight_fired [OF Cons.prems(1,2)] by simp
    have "find (is_reply cmd) msgs = Some r"
      using Cons.prems(4) False by simp
    then show ?thesis
      using Cons.IH [OF c' deliver_keeps_in_flight [OF Cons.prems(1,2) False]
          waiting_step_idle [OF Cons.prems(1,3) f]]
      by simp
  qed
qed

lemma callback_settles:
  assumes "consistent s" and "in_flight (awaited c0) cmd s" and "sole_waiter c0 s"
    and "find (is_reply cmd) msgs = Some r"
  shows "filter (\<lambda>c. callback c = callback c0) (awaiting (deliver_all msgs s)) = [] \<and>
         filter (uses (callback c0)) (onMessageCallbacks (deliver_all msgs s)) =
           (if truthy (error r) then []
            else [EventListener (result c0) (eventsArr c0) (callback c0)]) \<and>
         (truthy (error r) \<longrightarrow>
            subscribe_calls (callback c0) (trace (deliver_all msgs s)) =
            subscribe_calls (callback c0) (trace s))"
  using assms
proof (induction msgs arbitrary: s)
  case Nil
  then show ?case by simp
next
  case (Cons msg msgs)
  note c' = consistent_deliver [OF Cons.prems(1), of msg]
  show ?case
  proof (cases "is_reply cmd msg")
    case True
    then have r: "r = msg"
      using Cons.prems(4) by simp
    have f: "awaited c0 \<in> fired msg s"
      using in_flight_fired [OF Cons.prems(1,2)] True by simp
    have "answered (awaited c0) cmd msg (deliver msg s)"
      by (rule deliver_answers [OF Cons.prems(1,2) True])
    then have ret: "returned_promise (requests (deliver msg s) ! awaited c0) = Fulfilled r"
      by (simp add: answered_def r)
    note fired = sole_waiter_step_fired [OF Cons.prems(1,3) f]
    note rest = detached_all [OF c' fired(1), of msgs]
    show ?thesis
      using rest by (simp add: fired outcome_of_reply [OF ret])
  next
    case False
    then have f: "awaited c0 \<notin> fired msg s"
      using in_flight_fired [OF Cons.prems(1,2)] by simp
    have "find (is_reply cmd) msgs = Some r"
      using Cons.prems(4) False by simp
    then show ?thesis
      using Cons.IH [OF c' deliver_keeps_in_flight [OF Cons.prems(1,2) False]
          sole_waiter_step_idle(1) [OF Cons.prems(1,3) f]]
        sole_waiter_step_idle(2) [OF Cons.prems(1,3) f]
      by simp
  qed
qed

lemma suspended_fields [simp]:
  "awaited (suspended event f s) = length (requests s)"
  "eventsArr (suspended event f s) = events_of event"
  "callback (suspended event f s) = f"
  "result (suspended event f s) = length (subscriptions s)"
  by (simp_all add: suspended_def)

lemma subscribe_fst [simp]: "fst (subscribe event f s) = length (subscriptions s)"
  by (simp add: subscribe_eq)

subsection \<open>Consistency under the other operations\<close>

lemma consistent_trace [simp]: "consistent (s\<lparr>trace := t\<rparr>) = consistent s"
  by (simp add: consistent_def)

lemma fold_trace_only:
  "fold (\<lambda>cb t. t\<lparr>trace := trace t @ [g cb]\<rparr>) cbs s = s\<lparr>trace := trace s @ map g cbs\<rparr>"
  by (induction cbs arbitrary: s) simp_all

lemma consistent_send: "consistent s \<Longrightarrow> consistent (send m s)"
  by (simp add: send_def consistent_def)

lemma consistent_close: "consistent s \<Longrightarrow> consistent (close s)"
  by (simp add: close_def consistent_def)

lemma consistent_onMessage:
  "consistent s \<Longrightarrow> consistent (snd (onMessage (UserListener f) s))"
  by (simp add: onMessage_def consistent_def known_request_def)

lemma consistent_on_lifecycle:
  assumes "consistent s"
  shows "consistent (snd (onConnect f s))"
    and "consistent (snd (onDisconnect f s))"
    and "consistent (snd (onError f s))"
  using assms by (simp_all add: onConnect_def onDisconnect_def onError_def consistent_def)

lemma consistent_call_unlisten:
  "consistent s \<Longrightarrow> consistent (call_unlisten h s)"
  by (cases h) (simp_all add: consistent_def)

lemma consistent_handlers:
  assumes "consistent s"
  shows "consistent (socket_onopen e s)"
    and "consistent (socket_onerror e s)"
    and "consistent (socket_onclose e s)"
  using assms
  by (simp_all add: socket_onopen_def socket_onerror_def socket_onclose_def fold_trace_only)

subsection \<open>A transport whose send may throw\<close>




lemma consistent_socket [simp]: "consistent (s\<lparr>socket := w\<rparr>) = consistent s"
  by (simp add: consistent_def)

lemma in_flight_socket [simp]: "in_flight p c (s\<lparr>socket := w\<rparr>) = in_flight p c s"
  by (simp add: in_flight_def)


section \<open>Claims\<close>

text \<open>
  C1. The transport endpoint of a new client is \<^verbatim>\<open>ws://localhost:<port>\<close>: the port of the
  options when there is one (7000 gives \<^verbatim>\<open>ws://localhost:7000\<close>), and 6123 when the
  options or the port are omitted.
\<close>

theorem constructor_endpoint:
  "url (socket (GwmClient_new None)) = ''ws://localhost:6123'' \<and>
   url (socket (GwmClient_new (Some \<lparr>port = None\<rparr>))) = ''ws://localhost:6123'' \<and>
   url (socket (GwmClient_new (Some \<lparr>port = Some n\<rparr>))) = ''ws://localhost:'' @ Number_toString n \<and>
   url (socket (GwmClient_new (Some \<lparr>port = Some 7000\<rparr>))) = ''ws://localhost:7000''"
proof -
  have default: "Number_toString DEFAULT_PORT = ''6123''"
    by (simp add: DEFAULT_PORT_def Number_toString_def digits.simps)
  have seven: "Number_toString 7000 = ''7000''"
    by (simp add: Number_toString_def digits.simps)
  show ?thesis
    by (simp add: GwmClient_new_def WebSocket_new_def socket_address_def default seven)
qed

text \<open>
  C2, as stated: \<^verbatim>\<open>sendAndWaitReply\<close> registers its temporary listener first and sends the
  command afterwards. The code does it the other way round (the executor calls
  \<^verbatim>\<open>this.send\<close> on line 44 and \<^verbatim>\<open>this.onMessage\<close> on line 46): in the effects of a call
  on a new client the registration does not come before the transmission.
\<close>

theorem sendAndWaitReply_order_counterexample:
  "\<not> happens_before
       (Registered (UnlistenMessage (ReplyListener 0 ''monitors'')))
       (SocketSend ''monitors'')
       (trace (snd (sendAndWaitReply ''monitors'' (GwmClient_new None)))) \<and>
   trace (snd (sendAndWaitReply ''monitors'' (GwmClient_new None))) =
     [SocketSend ''monitors'', Registered (UnlistenMessage (ReplyListener 0 ''monitors''))]"
  by (simp add: happens_before_def sendAndWaitReply_eq GwmClient_new_def)

text \<open>
  C2, amended: \<^verbatim>\<open>sendAndWaitReply(c)\<close> sends \<open>c\<close> on the transport, then registers one
  temporary listener, both before it returns. Of the inbound messages that follow, those
  that are not a \<^verbatim>\<open>client_response\<close> with \<^verbatim>\<open>clientMessage\<close> equal to \<open>c\<close> leave the request
  in flight (promise pending, listener registered); the first one that is fulfils the
  promise with that message and unregisters the listener.
\<close>

theorem sendAndWaitReply_steps:
  assumes "consistent s"
  shows "trace (snd (sendAndWaitReply c s)) =
           trace s @ [SocketSend c,
             Registered (UnlistenMessage (ReplyListener (fst (sendAndWaitReply c s)) c))] \<and>
         sent (socket (snd (sendAndWaitReply c s))) = sent (socket s) @ [c] \<and>
         onMessageCallbacks (snd (sendAndWaitReply c s)) =
           onMessageCallbacks s @ [ReplyListener (fst (sendAndWaitReply c s)) c] \<and>
         (case find (is_reply c) msgs of
            None \<Rightarrow> in_flight (fst (sendAndWaitReply c s)) c
                      (deliver_all msgs (snd (sendAndWaitReply c s)))
          | Some m \<Rightarrow> answered (fst (sendAndWaitReply c s)) c m
                      (deliver_all msgs (snd (sendAndWaitReply c s))))"
proof -
  have "case find (is_reply c) msgs of
            None \<Rightarrow> in_flight (fst (sendAndWaitReply c s)) c
                      (deliver_all msgs (snd (sendAndWaitReply c s)))
          | Some m \<Rightarrow> answered (fst (sendAndWaitReply c s)) c m
                      (deliver_all msgs (snd (sendAndWaitReply c s)))"
    by (rule deliver_all_request [OF consistent_sendAndWaitReply [OF assms]
          in_flight_sendAndWaitReply])
  then show ?thesis
    by (simp add: sendAndWaitReply_eq WebSocket_send_def)
qed

theorem sendAndWaitReply_steps_witness:
  "consistent (GwmClient_new None) \<and>
   trace (snd (sendAndWaitReply ''windows'' (GwmClient_new None))) =
     [SocketSend ''windows'', Registered (UnlistenMessage (ReplyListener 0 ''windows''))] \<and>
   sent (socket (snd (sendAndWaitReply ''windows'' (GwmClient_new None)))) = [''windows''] \<and>
   onMessageCallbacks (snd (sendAndWaitReply ''windows'' (GwmClient_new None))) =
     [ReplyListener 0 ''windows''] \<and>
   answered 0 ''windows'' (client_response ''windows'' None)
     (deliver_all [subscribed_event ''focus'' ''w'', client_response ''windows'' None]
        (snd (sendAndWaitReply ''windows'' (GwmClient_new None))))"
proof -
  have h: "consistent (GwmClient_new None)"
    by (rule consistent_new)
  have p: "fst (sendAndWaitReply ''windows'' (GwmClient_new None)) = 0"
    by (simp add: sendAndWaitReply_eq GwmClient_new_def)
  have e: "trace (GwmClient_new None) = []" "sent (socket (GwmClient_new None)) = []"
    "onMessageCallbacks (GwmClient_new None) = []"
    by (simp_all add: GwmClient_new_def WebSocket_new_def)
  have f: "find (is_reply ''windows'')
      [subscribed_event ''focus'' ''w'', client_response ''windows'' None]
      = Some (client_response ''windows'' None)"
    by (simp add: is_reply_def subscribed_event_def client_response_def)
  show ?thesis
    using sendAndWaitReply_steps [OF h, of "''windows''"
        "[subscribed_event ''focus'' ''w'', client_response ''windows'' None]"] h
    unfolding p e f by simp
qed

text \<open>
  C3, as stated: after the round trip of \<^verbatim>\<open>sendAndWaitReply(c)\<close> the message registry has
  the size it had before the call. With another request pending this fails: \<^verbatim>\<open>windows\<close> is
  pending (one listener), \<^verbatim>\<open>monitors\<close> is requested, and the replies to both arrive; each
  reply removes the listener of its own request, so the registry is empty afterwards.
\<close>

theorem sendAndWaitReply_round_trip_counterexample:
  "consistent (snd (sendAndWaitReply ''windows'' (GwmClient_new None))) \<and>
   find (is_reply ''monitors'')
     [client_response ''windows'' None, client_response ''monitors'' None]
     = Some (client_response ''monitors'' None) \<and>
   length (onMessageCallbacks (snd (sendAndWaitReply ''windows'' (GwmClient_new None)))) = 1 \<and>
   length (onMessageCallbacks
     (deliver_all [client_response ''windows'' None, client_response ''monitors'' None]
        (snd (sendAndWaitReply ''monitors''
           (snd (sendAndWaitReply ''windows'' (GwmClient_new None))))))) = 0"
proof -
  have "consistent (snd (sendAndWaitReply ''windows'' (GwmClient_new None)))"
    by (rule consistent_sendAndWaitReply [OF consistent_new])
  moreover have "find (is_reply ''monitors'')
     [client_response ''windows'' None, client_response ''monitors'' None]
     = Some (client_response ''monitors'' None)"
    by (simp add: is_reply_def client_response_def)
  moreover have "length (onMessageCallbacks
      (snd (sendAndWaitReply ''windows'' (GwmClient_new None)))) = 1"
    by (simp add: sendAndWaitReply_eq GwmClient_new_def)
  moreover have "onMessageCallbacks
     (deliver_all [client_response ''windows'' None, client_response ''monitors'' None]
        (snd (sendAndWaitReply ''monitors''
           (snd (sendAndWaitReply ''windows'' (GwmClient_new None)))))) = []"
    by (simp add: deliver_all_def deliver_def checkpoint_def socket_onmessage_def
        run_finally_def run_continuations_def resolve_def sendAndWaitReply_def send_def
        onMessage_def GwmClient_new_def WebSocket_new_def WebSocket_send_def
        client_response_def Let_def)
  ultimately show ?thesis
    by simp
qed

text \<open>
  C3, amended: for a command \<open>c\<close> and inbound messages of which \<open>m\<close> is the first
  \<^verbatim>\<open>client_response\<close> whose \<^verbatim>\<open>clientMessage\<close> is \<open>c\<close>, the promise of \<^verbatim>\<open>sendAndWaitReply(c)\<close>
  is fulfilled with \<open>m\<close> and the temporary listener is no longer registered; when these
  messages answer no other pending request, the message registry after the round trip is
  the registry before the call, so it has the same size. Other requests may be pending.
\<close>

theorem sendAndWaitReply_round_trip:
  assumes "consistent s" and "find (is_reply c) msgs = Some m"
  shows "returned_promise
           (requests (deliver_all msgs (snd (sendAndWaitReply c s))) ! fst (sendAndWaitReply c s))
         = Fulfilled m \<and>
         ReplyListener (fst (sendAndWaitReply c s)) c
           \<notin> set (onMessageCallbacks (deliver_all msgs (snd (sendAndWaitReply c s)))) \<and>
         (unanswered msgs (onMessageCallbacks s) \<longrightarrow>
            onMessageCallbacks (deliver_all msgs (snd (sendAndWaitReply c s))) = onMessageCallbacks s \<and>
            length (onMessageCallbacks (deliver_all msgs (snd (sendAndWaitReply c s))))
              = length (onMessageCallbacks s))"
proof -
  let ?p = "fst (sendAndWaitReply c s)" and ?s1 = "snd (sendAndWaitReply c s)"
  have c1: "consistent ?s1"
    by (rule consistent_sendAndWaitReply [OF assms(1)])
  have f1: "in_flight ?p c ?s1"
    by (rule in_flight_sendAndWaitReply)
  have "answered ?p c m (deliver_all msgs ?s1)"
    using deliver_all_request [OF c1 f1, of msgs] assms(2) by simp
  moreover have "onMessageCallbacks (deliver_all msgs ?s1) = onMessageCallbacks s"
    if "unanswered msgs (onMessageCallbacks s)"
    by (rule alone_round_trip [OF c1 f1 alone_sendAndWaitReply [OF assms(1) that] assms(2)])
  ultimately show ?thesis
    by (simp add: answered_def)
qed

theorem sendAndWaitReply_round_trip_witness:
  "consistent (snd (sendAndWaitReply ''windows'' (GwmClient_new None))) \<and>
   find (is_reply ''monitors'')
     [subscribed_event ''focus'' ''w'', client_response ''monitors'' None,
      client_response ''monitors'' (Some ''late'')] = Some (client_response ''monitors'' None) \<and>
   unanswered
     [subscribed_event ''focus'' ''w'', client_response ''monitors'' None,
      client_response ''monitors'' (Some ''late'')]
     (onMessageCallbacks (snd (sendAndWaitReply ''windows'' (GwmClient_new None)))) \<and>
   returned_promise
     (requests (deliver_all
        [subscribed_event ''focus'' ''w'', client_response ''monitors'' None,
         client_response ''monitors'' (Some ''late'')]
        (snd (sendAndWaitReply ''monitors''
           (snd (sendAndWaitReply ''windows'' (GwmClient_new None)))))) ! 1)
     = Fulfilled (client_response ''monitors'' None) \<and>
   onMessageCallbacks (deliver_all
        [subscribed_event ''focus'' ''w'', client_response ''monitors'' None,
         client_response ''monitors'' (Some ''late'')]
        (snd (sendAndWaitReply ''monitors''
           (snd (sendAndWaitReply ''windows'' (GwmClient_new None))))))
     = [ReplyListener 0 ''windows'']"
proof -
  have h1: "consistent (snd (sendAndWaitReply ''windows'' (GwmClient_new None)))"
    by (rule consistent_sendAndWaitReply [OF consistent_new])
  have h2: "find (is_reply ''monitors'')
     [subscribed_event ''focus'' ''w'', client_response ''monitors'' None,
      client_response ''monitors'' (Some ''late'')] = Some (client_response ''monitors'' None)"
    by (simp add: is_reply_def client_response_def subscribed_event_def)
  have e: "onMessageCallbacks (snd (sendAndWaitReply ''windows'' (GwmClient_new None)))
      = [ReplyListener 0 ''windows'']"
    by (simp add: sendAndWaitReply_eq GwmClient_new_def)
  have h3: "unanswered
     [subscribed_event ''focus'' ''w'', client_response ''monitors'' None,
      client_response ''monitors'' (Some ''late'')]
     [ReplyListener 0 ''windows'']"
    by (simp add: unanswered_def accepts_def is_reply_def client_response_def
        subscribed_event_def)
  have p: "fst (sendAndWaitReply ''monitors''
      (snd (sendAndWaitReply ''windows'' (GwmClient_new None)))) = 1"
    by (simp add: sendAndWaitReply_eq GwmClient_new_def)
  show ?thesis
    using sendAndWaitReply_round_trip [OF h1 h2] h1 h2 h3
    unfolding p e by simp
qed

text \<open>
  C4. Two requests with distinct commands are in flight together. Whatever the inbound
  messages, each promise is fulfilled with the first reply to its own command; in
  particular when the reply to the second request arrives before the reply to the first.
\<close>

theorem concurrent_requests:
  assumes "consistent s" and "c1 \<noteq> c2"
    and "find (is_reply c1) msgs = Some r1" and "find (is_reply c2) msgs = Some r2"
  shows "returned_promise
           (requests (deliver_all msgs
              (snd (sendAndWaitReply c2 (snd (sendAndWaitReply c1 s))))) !
            fst (sendAndWaitReply c1 s)) = Fulfilled r1 \<and>
         returned_promise
           (requests (deliver_all msgs
              (snd (sendAndWaitReply c2 (snd (sendAndWaitReply c1 s))))) !
            fst (sendAndWaitReply c2 (snd (sendAndWaitReply c1 s)))) = Fulfilled r2 \<and>
         returned_promise
           (requests (deliver_all [r2, r1]
              (snd (sendAndWaitReply c2 (snd (sendAndWaitReply c1 s))))) !
            fst (sendAndWaitReply c1 s)) = Fulfilled r1 \<and>
         returned_promise
           (requests (deliver_all [r2, r1]
              (snd (sendAndWaitReply c2 (snd (sendAndWaitReply c1 s))))) !
            fst (sendAndWaitReply c2 (snd (sendAndWaitReply c1 s)))) = Fulfilled r2"
proof -
  let ?p1 = "fst (sendAndWaitReply c1 s)" and ?s1 = "snd (sendAndWaitReply c1 s)"
  let ?p2 = "fst (sendAndWaitReply c2 ?s1)" and ?s2 = "snd (sendAndWaitReply c2 ?s1)"
  have c1: "consistent ?s1"
    by (rule consistent_sendAndWaitReply [OF assms(1)])
  have c2: "consistent ?s2"
    by (rule consistent_sendAndWaitReply [OF c1])
  have f1: "in_flight ?p1 c1 ?s2"
    by (rule sendAndWaitReply_keeps_in_flight [OF in_flight_sendAndWaitReply])
  have f2: "in_flight ?p2 c2 ?s2"
    by (rule in_flight_sendAndWaitReply)
  have r1: "is_reply c1 r1" and r2: "is_reply c2 r2"
    using assms(3,4) by (auto simp: find_Some_iff)
  have "\<not> is_reply c1 r2"
    using r2 assms(2) by (auto simp: is_reply_def)
  then have o1: "find (is_reply c1) [r2, r1] = Some r1"
    using r1 by simp
  have o2: "find (is_reply c2) [r2, r1] = Some r2"
    using r2 by simp
  have "answered ?p1 c1 r1 (deliver_all msgs ?s2)"
    using deliver_all_request [OF c2 f1, of msgs] assms(3) by simp
  moreover have "answered ?p2 c2 r2 (deliver_all msgs ?s2)"
    using deliver_all_request [OF c2 f2, of msgs] assms(4) by simp
  moreover have "answered ?p1 c1 r1 (deliver_all [r2, r1] ?s2)"
    using deliver_all_request [OF c2 f1, of "[r2, r1]"] o1 by (simp del: deliver_all_Cons)
  moreover have "answered ?p2 c2 r2 (deliver_all [r2, r1] ?s2)"
    using deliver_all_request [OF c2 f2, of "[r2, r1]"] o2 by (simp del: deliver_all_Cons)
  ultimately show ?thesis
    by (simp add: answered_def del: deliver_all_Cons)
qed

theorem concurrent_requests_witness:
  "consistent (GwmClient_new None) \<and> ''monitors'' \<noteq> ''windows'' \<and>
   find (is_reply ''monitors'')
     [client_response ''windows'' None, client_response ''monitors'' None]
     = Some (client_response ''monitors'' None) \<and>
   find (is_reply ''windows'')
     [client_response ''windows'' None, client_response ''monitors'' None]
     = Some (client_response ''windows'' None) \<and>
   returned_promise
     (requests (deliver_all [client_response ''windows'' None, client_response ''monitors'' None]
        (snd (sendAndWaitReply ''windows''
           (snd (sendAndWaitReply ''monitors'' (GwmClient_new None)))))) ! 0)
     = Fulfilled (client_response ''monitors'' None) \<and>
   returned_promise
     (requests (deliver_all [client_response ''windows'' None, client_response ''monitors'' None]
        (snd (sendAndWaitReply ''windows''
           (snd (sendAndWaitReply ''monitors'' (GwmClient_new None)))))) ! 1)
     = Fulfilled (client_response ''windows'' None)"
proof -
  have h: "consistent (GwmClient_new None)"
    by (rule consistent_new)
  have d: "''monitors'' \<noteq> ''windows''"
    by simp
  have f1: "find (is_reply ''monitors'')
     [client_response ''windows'' None, client_response ''monitors'' None]
     = Some (client_response ''monitors'' None)"
    by (simp add: is_reply_def client_response_def)
  have f2: "find (is_reply ''windows'')
     [client_response ''windows'' None, client_response ''monitors'' None]
     = Some (client_response ''windows'' None)"
    by (simp add: is_reply_def client_response_def)
  have p: "fst (sendAndWaitReply ''monitors'' (GwmClient_new None)) = 0"
    "fst (sendAndWaitReply ''windows''
       (snd (sendAndWaitReply ''monitors'' (GwmClient_new None)))) = 1"
    by (simp_all add: sendAndWaitReply_eq GwmClient_new_def)
  show ?thesis
    using concurrent_requests [OF h d f1 f2] h d f1 f2
    unfolding p by simp
qed






text \<open>
  C7. After \<^verbatim>\<open>subscribe(events, cb)\<close> has succeeded (the first reply to its request carries
  no error; nothing else referred to \<open>cb\<close>), the promise holds the handle of the new
  listener, and an inbound message calls \<open>cb\<close> exactly once with its data when it is a
  \<^verbatim>\<open>subscribed_event\<close> whose event type is among the requested ones, and not at all
  otherwise. For \<^verbatim>\<open>["focus","move"]\<close>: once on \<^verbatim>\<open>focus\<close>, never on \<^verbatim>\<open>other\<close>.
\<close>

theorem subscribe_dispatch:
  assumes "consistent s" and "unused f s"
    and "find (is_reply (subscribe_command event)) msgs = Some r"
    and "\<not> truthy (error r)"
  shows "subscriptions (deliver_all msgs (snd (subscribe event f s))) ! fst (subscribe event f s)
           = Fulfilled (UnlistenMessage
               (EventListener (fst (subscribe event f s)) (events_of event) f)) \<and>
         subscribe_calls f (trace (deliver ev (deliver_all msgs (snd (subscribe event f s))))) =
           subscribe_calls f (trace (deliver_all msgs (snd (subscribe event f s)))) @
           (if messageType ev = ''subscribed_event'' \<and>
               Array_includes (events_of event) (event_type (data ev))
            then [data ev] else [])"
proof -
  let ?c0 = "suspended event f s" and ?s1 = "snd (subscribe event f s)"
  have c1: "consistent ?s1"
    by (rule consistent_subscribe [OF assms(1)])
  have f1: "in_flight (awaited ?c0) (subscribe_command event) ?s1"
    using in_flight_subscribe [of s event f] by simp
  note k = subscription_settles [OF c1 f1 waiting_subscribe [OF assms(1)] assms(3)]
  note l = callback_settles [OF c1 f1 sole_waiter_subscribe [OF assms(2)] assms(3)]
  have "filter (uses f) (onMessageCallbacks (deliver_all msgs ?s1)) =
      [EventListener (length (subscriptions s)) (events_of event) f]"
    using l assms(4) by simp
  then have "subscribe_calls f (trace (deliver ev (deliver_all msgs ?s1))) =
      subscribe_calls f (trace (deliver_all msgs ?s1)) @
      (if messageType ev = ''subscribed_event'' \<and>
          Array_includes (events_of event) (event_type (data ev))
       then [data ev] else [])"
    by (simp add: deliver_subscribe_calls listener_calls_def)
  then show ?thesis
    using k assms(4) by simp
qed

theorem subscribe_dispatch_witness:
  "consistent (GwmClient_new None) \<and> unused 7 (GwmClient_new None) \<and>
   find (is_reply (subscribe_command (Many [''focus'', ''move''])))
     [client_response ''subscribe -e focus,move'' None]
     = Some (client_response ''subscribe -e focus,move'' None) \<and>
   \<not> truthy (error (client_response ''subscribe -e focus,move'' None)) \<and>
   subscriptions
     (deliver_all [client_response ''subscribe -e focus,move'' None]
        (snd (subscribe (Many [''focus'', ''move'']) 7 (GwmClient_new None)))) ! 0
     = Fulfilled (UnlistenMessage (EventListener 0 [''focus'', ''move''] 7)) \<and>
   subscribe_calls 7
     (trace (deliver (subscribed_event ''focus'' ''w'')
        (deliver_all [client_response ''subscribe -e focus,move'' None]
           (snd (subscribe (Many [''focus'', ''move'']) 7 (GwmClient_new None)))))) =
   subscribe_calls 7
     (trace (deliver_all [client_response ''subscribe -e focus,move'' None]
        (snd (subscribe (Many [''focus'', ''move'']) 7 (GwmClient_new None))))) @
   [\<lparr>event_type = Some ''focus'', detail = ''w''\<rparr>] \<and>
   subscribe_calls 7
     (trace (deliver (subscribed_event ''other'' ''w'')
        (deliver_all [client_response ''subscribe -e focus,move'' None]
           (snd (subscribe (Many [''focus'', ''move'']) 7 (GwmClient_new None)))))) =
   subscribe_calls 7
     (trace (deliver_all [client_response ''subscribe -e focus,move'' None]
        (snd (subscribe (Many [''focus'', ''move'']) 7 (GwmClient_new None)))))"
proof -
  have h1: "consistent (GwmClient_new None)"
    by (rule consistent_new)
  have h2: "unused 7 (GwmClient_new None)"
    by (simp add: unused_def GwmClient_new_def)
  have h3: "find (is_reply (subscribe_command (Many [''focus'', ''move''])))
     [client_response ''subscribe -e focus,move'' None]
     = Some (client_response ''subscribe -e focus,move'' None)"
    by (simp add: is_reply_def subscribe_command_def events_of_def client_response_def)
  have h4: "\<not> truthy (error (client_response ''subscribe -e focus,move'' None))"
    by (simp add: truthy_def client_response_def)
  have k: "fst (subscribe (Many [''focus'', ''move'']) 7 (GwmClient_new None)) = 0"
    by (simp add: GwmClient_new_def)
  show ?thesis
    using subscribe_dispatch [OF h1 h2 h3 h4, of "subscribed_event ''focus'' ''w''"]
      subscribe_dispatch [OF h1 h2 h3 h4, of "subscribed_event ''other'' ''w''"]
      h1 h2 h3 h4
    unfolding k by (simp add: events_of_def subscribed_event_def Array_includes_def)
qed

text \<open>
  C8. After \<^verbatim>\<open>onMessage(f)\<close>, calling the returned handle removes \<open>f\<close> from the message
  registry, so the next inbound message does not call \<open>f\<close>; calling the handle a second time
  changes none of the four registries (the handle is a filter and has no failing branch).
\<close>

theorem onMessage_unlisten:
  "UserListener f \<notin>
     set (onMessageCallbacks (call_unlisten (fst (onMessage (UserListener f) s))
                                            (snd (onMessage (UserListener f) s)))) \<and>
   message_calls f (trace (deliver msg (call_unlisten (fst (onMessage (UserListener f) s))
                                                      (snd (onMessage (UserListener f) s))))) =
   message_calls f (trace s) \<and>
   onMessageCallbacks (call_unlisten (fst (onMessage (UserListener f) s))
      (call_unlisten (fst (onMessage (UserListener f) s)) (snd (onMessage (UserListener f) s)))) =
   onMessageCallbacks (call_unlisten (fst (onMessage (UserListener f) s))
      (snd (onMessage (UserListener f) s))) \<and>
   onConnectCallbacks (call_unlisten (fst (onMessage (UserListener f) s))
      (call_unlisten (fst (onMessage (UserListener f) s)) (snd (onMessage (UserListener f) s)))) =
   onConnectCallbacks (call_unlisten (fst (onMessage (UserListener f) s))
      (snd (onMessage (UserListener f) s))) \<and>
   onDisconnectCallbacks (call_unlisten (fst (onMessage (UserListener f) s))
      (call_unlisten (fst (onMessage (UserListener f) s)) (snd (onMessage (UserListener f) s)))) =
   onDisconnectCallbacks (call_unlisten (fst (onMessage (UserListener f) s))
      (snd (onMessage (UserListener f) s))) \<and>
   onErrorCallbacks (call_unlisten (fst (onMessage (UserListener f) s))
      (call_unlisten (fst (onMessage (UserListener f) s)) (snd (onMessage (UserListener f) s)))) =
   onErrorCallbacks (call_unlisten (fst (onMessage (UserListener f) s))
      (snd (onMessage (UserListener f) s)))"
  by (simp add: onMessage_def deliver_message_calls)

text \<open>
  C9. \<^verbatim>\<open>close()\<close> calls the close operation of the transport and changes nothing else: the
  four registries, the requests with their promises (pending ones stay pending), the
  promises of \<^verbatim>\<open>subscribe\<close> and the suspended activations are as before. The close
  notification that the transport sends afterwards settles no request either.
\<close>

theorem close_delegates:
  "socket (close s) = WebSocket_close (socket s) \<and>
   onMessageCallbacks (close s) = onMessageCallbacks s \<and>
   onConnectCallbacks (close s) = onConnectCallbacks s \<and>
   onDisconnectCallbacks (close s) = onDisconnectCallbacks s \<and>
   onErrorCallbacks (close s) = onErrorCallbacks s \<and>
   requests (close s) = requests s \<and>
   subscriptions (close s) = subscriptions s \<and>
   awaiting (close s) = awaiting s \<and>
   jobs (close s) = jobs s \<and>
   requests (socket_onclose e (close s)) = requests s \<and>
   onMessageCallbacks (socket_onclose e (close s)) = onMessageCallbacks s"
  by (simp add: close_def)

text \<open>
  C10. A handle removes every occurrence of its callback: when \<open>f\<close> is registered twice, the
  handle of either registration leaves the registry as it was before both, without any
  \<open>f\<close> that was there earlier. This holds for each of the four registries.
\<close>

theorem unlisten_removes_every_occurrence:
  "onMessageCallbacks (call_unlisten (fst (onMessage f s))
       (snd (onMessage f (snd (onMessage f s))))) =
     filter (\<lambda>cb. cb \<noteq> f) (onMessageCallbacks s) \<and>
   onMessageCallbacks (call_unlisten (fst (onMessage f (snd (onMessage f s))))
       (snd (onMessage f (snd (onMessage f s))))) =
     filter (\<lambda>cb. cb \<noteq> f) (onMessageCallbacks s) \<and>
   onConnectCallbacks (call_unlisten (fst (onConnect g s))
       (snd (onConnect g (snd (onConnect g s))))) =
     filter (\<lambda>cb. cb \<noteq> g) (onConnectCallbacks s) \<and>
   onConnectCallbacks (call_unlisten (fst (onConnect g (snd (onConnect g s))))
       (snd (onConnect g (snd (onConnect g s))))) =
     filter (\<lambda>cb. cb \<noteq> g) (onConnectCallbacks s) \<and>
   onDisconnectCallbacks (call_unlisten (fst (onDisconnect g s))
       (snd (onDisconnect g (snd (onDisconnect g s))))) =
     filter (\<lambda>cb. cb \<noteq> g) (onDisconnectCallbacks s) \<and>
   onDisconnectCallbacks (call_unlisten (fst (onDisconnect g (snd (onDisconnect g s))))
       (snd (onDisconnect g (snd (onDisconnect g s))))) =
     filter (\<lambda>cb. cb \<noteq> g) (onDisconnectCallbacks s) \<and>
   onErrorCallbacks (call_unlisten (fst (onError g s))
       (snd (onError g (snd (onError g s))))) =
     filter (\<lambda>cb. cb \<noteq> g) (onErrorCallbacks s) \<and>
   onErrorCallbacks (call_unlisten (fst (onError g (snd (onError g s))))
       (snd (onError g (snd (onError g s))))) =
     filter (\<lambda>cb. cb \<noteq> g) (onErrorCallbacks s) \<and>
   f \<notin> set (filter (\<lambda>cb. cb \<noteq> f) (onMessageCallbacks s)) \<and>
   g \<notin> set (filter (\<lambda>cb. cb \<noteq> g) (onConnectCallbacks s))"
  by (simp add: onMessage_def onConnect_def onDisconnect_def onError_def)

end
